theory Spec2Isabelle
  imports Complex_Main "HOL-Library.Word"
begin

section \<open>Data model of the streaming server (KinectServer.cpp)\<close>

text \<open>
  The server streams compressed color and depth frames of several cameras to TCP clients.
  Machine integers declared \<^verbatim>\<open>unsigned int\<close> in the source are 32-bit words, so that
  \<^verbatim>\<open>++\<close> and \<^verbatim>\<open>--\<close> wrap around as they do in C++. Byte blobs
  (\<^verbatim>\<open>IO::VariableMemoryFile::BufferChain\<close>) are byte lists. A \<^verbatim>\<open>double\<close> is only ever
  copied by this file, never computed with; it is carried as a real number.
\<close>

type_synonym u32 = "32 word"
type_synonym blob = "8 word list"

subsection \<open>Exceptions\<close>

text \<open>
  Every \<^verbatim>\<open>try\<close> block of the source has two handlers: \<^verbatim>\<open>catch(std::runtime_error err)\<close>
  and \<^verbatim>\<open>catch(...)\<close>. The model distinguishes exactly these two classes of exception.
\<close>

datatype exn = RuntimeError | OtherException

subsection \<open>Client sockets (Comm::TCPPipe)\<close>

text \<open>
  What the server writes to a socket is recorded item by item, in order. The three fields
  \<open>readable\<close>, \<open>request\<close> and \<open>writable\<close> are the environment's side of the socket: what the
  next zero-timeout poll answers, what the next read of an unsigned int answers, and whether
  (and after how many further successful output calls) an output call throws.
\<close>

datatype item =
    U32 u32          \<comment> \<open>\<^verbatim>\<open>write<unsigned int>(v)\<close>\<close>
  | Buffers blob     \<comment> \<open>\<^verbatim>\<open>BufferChain::writeToSink\<close>\<close>
  | PTransform real  \<comment> \<open>a marshalled projective transformation\<close>
  | Extrinsic real   \<comment> \<open>marshalled extrinsic parameters\<close>
  | Flushed          \<comment> \<open>\<^verbatim>\<open>flush()\<close>\<close>

record client =
  sockId :: nat
  readable :: "exn + bool"
  request :: "exn + u32"
  writable :: "(nat \<times> exn) option"
  received :: "u32 list"
  sent :: "item list"

definition waitForData :: "client \<Rightarrow> exn + bool" where
  "waitForData c = readable c"

definition readU32 :: "client \<Rightarrow> exn + client" where
  "readU32 c = (case request c of
      Inl e \<Rightarrow> Inl e
    | Inr w \<Rightarrow> Inr (c\<lparr>received := received c @ [w]\<rparr>))"

definition writeItem :: "item \<Rightarrow> client \<Rightarrow> exn + client" where
  "writeItem x c = (case writable c of
      None \<Rightarrow> Inr (c\<lparr>sent := sent c @ [x]\<rparr>)
    | Some (0, e) \<Rightarrow> Inl e
    | Some (Suc k, e) \<Rightarrow> Inr (c\<lparr>writable := Some (k, e), sent := sent c @ [x]\<rparr>))"

subsection \<open>Fan-out of one frame to all clients\<close>

text \<open>
  The body of the \<^verbatim>\<open>try\<close> block of the client loop (lines 214-241 for color, 282-309 for
  depth; the two differ only in the frame identifier and in the buffer they read the blob
  from, which are parameters here). The result says how the block was left, together with the
  socket as it is at that point.
\<close>

datatype served = Written | Requested | Raised exn

definition serve :: "u32 \<Rightarrow> u32 \<Rightarrow> blob \<Rightarrow> client \<Rightarrow> served \<times> client" where
  "serve metaFrameIndex frameId frameData c =
    (case waitForData c of
       Inl e \<Rightarrow> (Raised e, c)
     | Inr True \<Rightarrow>
         (case readU32 c of
            Inl e \<Rightarrow> (Raised e, c)
          | Inr c1 \<Rightarrow> (Requested, c1))
     | Inr False \<Rightarrow>
         (case writeItem (U32 metaFrameIndex) c of
            Inl e \<Rightarrow> (Raised e, c)
          | Inr c1 \<Rightarrow>
         (case writeItem (U32 frameId) c1 of
            Inl e \<Rightarrow> (Raised e, c1)
          | Inr c2 \<Rightarrow>
         (case writeItem (Buffers frameData) c2 of
            Inl e \<Rightarrow> (Raised e, c2)
          | Inr c3 \<Rightarrow>
         (case writeItem Flushed c3 of
            Inl e \<Rightarrow> (Raised e, c3)
          | Inr c4 \<Rightarrow> (Written, c4))))))"

text \<open>\<^verbatim>\<open>clients.erase(clients.begin()+j)\<close>\<close>

definition erase :: "nat \<Rightarrow> 'a list \<Rightarrow> 'a list" where
  "erase k xs = take k xs @ drop (Suc k) xs"

text \<open>
  The client loop \<^verbatim>\<open>for(unsigned int j=0;j<numClients;++j)\<close> (lines 210-260 and 277-328).
  \<open>j\<close> and \<open>numClients\<close> are 32-bit; \<^verbatim>\<open>--j\<close> at \<open>j = 0\<close> wraps to \<open>2^32 - 1\<close> and the
  loop's \<^verbatim>\<open>++j\<close> brings it back to 0. An access \<^verbatim>\<open>clients[j]\<close> outside the vector is
  undefined behaviour in C++ and ends the model's loop with \<open>OutOfBounds\<close> (as a call
  through a null pointer ends the listening thread's model with \<open>NullPointer\<close>). A deleted socket is
  appended to \<open>deleted\<close>. The handler for \<^verbatim>\<open>catch(...)\<close> removes the client and rethrows, which
  leaves the loop with \<open>Rethrown\<close>.
\<close>

datatype status = Completed | Rethrown | OutOfBounds | NullPointer

function fanoutLoop ::
  "u32 \<Rightarrow> u32 \<Rightarrow> blob \<Rightarrow> u32 \<Rightarrow> u32 \<Rightarrow> client list \<Rightarrow> client list
     \<Rightarrow> status \<times> client list \<times> client list" where
  "fanoutLoop metaFrameIndex frameId frameData j numClients clients deleted =
    (if j < numClients then
       (if unat j < length clients then
          (case serve metaFrameIndex frameId frameData (clients ! unat j) of
             (Written, c) \<Rightarrow>
               fanoutLoop metaFrameIndex frameId frameData (j + 1) numClients
                 (clients[unat j := c]) deleted
           | (Requested, c) \<Rightarrow>
               fanoutLoop metaFrameIndex frameId frameData ((j - 1) + 1) (numClients - 1)
                 (erase (unat j) clients) (deleted @ [c])
           | (Raised RuntimeError, c) \<Rightarrow>
               fanoutLoop metaFrameIndex frameId frameData ((j - 1) + 1) (numClients - 1)
                 (erase (unat j) clients) (deleted @ [c])
           | (Raised OtherException, c) \<Rightarrow>
               (Rethrown, erase (unat j) clients, deleted @ [c]))
        else (OutOfBounds, clients, deleted))
     else (Completed, clients, deleted))"
  by pat_completeness auto
termination
proof (relation "measure (\<lambda>(m, f, d, j, n, cs, cl). unat n - unat j)", goal_cases)
  case 1
  show ?case by simp
next
  case (2 m f d j n cs cl x y)
  from \<open>j < n\<close> have "unat n - unat (j + 1) < unat n - unat j" by unat_arith
  then show ?case by simp
next
  case (3 m f d j n cs cl x y)
  from \<open>j < n\<close> have "unat (n - 1) - unat j < unat n - unat j" by unat_arith
  then show ?case by simp
next
  case (4 m f d j n cs cl x y z)
  from \<open>j < n\<close> have "unat (n - 1) - unat j < unat n - unat j" by unat_arith
  then show ?case by simp
qed

text \<open>
  The block under the client-list lock: \<^verbatim>\<open>unsigned int numClients=clients.size();\<close> followed
  by the loop from \<open>j = 0\<close>. The conversion of \<^verbatim>\<open>size_t\<close> to \<^verbatim>\<open>unsigned int\<close> truncates.
\<close>

definition fanout ::
  "u32 \<Rightarrow> u32 \<Rightarrow> blob \<Rightarrow> client list \<Rightarrow> client list \<Rightarrow> status \<times> client list \<times> client list" where
  "fanout metaFrameIndex frameId frameData clients deleted =
     fanoutLoop metaFrameIndex frameId frameData 0 (of_nat (length clients)) clients deleted"

subsection \<open>Compressed frames, triple buffers, camera states\<close>

text \<open>
  A decoded frame as the camera hands it to a streaming callback. The compressors
  (\<^verbatim>\<open>colorCompressor\<close>, \<^verbatim>\<open>depthCompressor\<close>) are not part of KinectServer.cpp; the bytes
  that \<^verbatim>\<open>writeFrame\<close> appends to the memory file for a frame are carried by the frame.
\<close>

record FrameBuffer =
  frameTimeStamp :: real
  encoding :: blob

record CompressedFrame =
  index :: u32
  timeStamp :: real
  data :: blob

text \<open>
  Modelled from the spec: \<^verbatim>\<open>Threads::TripleBuffer\<close> is not under src/. The producer's
  \<^verbatim>\<open>startNewValue\<close>/\<^verbatim>\<open>postNewValue\<close> pair publishes a value; \<^verbatim>\<open>lockNewValue\<close> acquires the
  most recent unread commit and answers false when there is none; commits that were never
  locked are dropped.
\<close>

record TripleBuffer =
  lockedValue :: CompressedFrame
  postedValue :: CompressedFrame
  newValue :: bool

definition postNewValue :: "CompressedFrame \<Rightarrow> TripleBuffer \<Rightarrow> TripleBuffer" where
  "postNewValue v tb = tb\<lparr>postedValue := v, newValue := True\<rparr>"

definition lockNewValue :: "TripleBuffer \<Rightarrow> bool \<times> TripleBuffer" where
  "lockNewValue tb =
     (if newValue tb then (True, tb\<lparr>lockedValue := postedValue tb, newValue := False\<rparr>)
      else (False, tb))"

definition getLockedValue :: "TripleBuffer \<Rightarrow> CompressedFrame" where
  "getLockedValue tb = lockedValue tb"

text \<open>Calls made on the \<^verbatim>\<open>Kinect::Camera\<close> object of a camera state, in order.\<close>

datatype CameraCall =
    LoadBackground string
  | CaptureBackground u32 bool
  | SetMaxDepth u32 bool
  | SetBackgroundRemovalFuzz int
  | SetRemoveBackground bool
  | StartStreaming

record CameraState =
  camera :: "CameraCall list"
  colorProjection :: real
  depthProjection :: real
  extrinsicParameters :: real
  colorFile :: blob
  colorHeaders :: blob
  colorFrames :: TripleBuffer
  colorFrameIndex :: u32
  hasSentColorFrame :: bool
  depthFile :: blob
  depthHeaders :: blob
  depthFrames :: TripleBuffer
  depthFrameIndex :: u32
  hasSentDepthFrame :: bool

text \<open>
  Modelled from the spec: \<^verbatim>\<open>IO::VariableMemoryFile::storeBuffers\<close> is not under src/. It
  transfers all accumulated bytes into the caller's blob and resets the file.
\<close>

definition storeBuffers :: "blob \<Rightarrow> blob \<times> blob" where
  "storeBuffers file = (file, [])"

text \<open>
  \<^verbatim>\<open>CameraState::colorStreamingCallback\<close> (lines 43-56). Signalling the condition variable
  changes no data; the wake-up of the streaming thread is the scheduling of its next step.
\<close>

definition colorStreamingCallback :: "FrameBuffer \<Rightarrow> CameraState \<Rightarrow> CameraState" where
  "colorStreamingCallback frame cam =
     (let file1 = colorFile cam @ encoding frame;
          (stored, file2) = storeBuffers file1;
          compressedFrame = \<lparr>index = colorFrameIndex cam, timeStamp = frameTimeStamp frame,
                              data = stored\<rparr>
      in cam\<lparr>colorFile := file2,
              colorFrames := postNewValue compressedFrame (colorFrames cam),
              colorFrameIndex := colorFrameIndex cam + 1\<rparr>)"

text \<open>\<^verbatim>\<open>CameraState::depthStreamingCallback\<close> (lines 58-71).\<close>

definition depthStreamingCallback :: "FrameBuffer \<Rightarrow> CameraState \<Rightarrow> CameraState" where
  "depthStreamingCallback frame cam =
     (let file1 = depthFile cam @ encoding frame;
          (stored, file2) = storeBuffers file1;
          compressedFrame = \<lparr>index = depthFrameIndex cam, timeStamp = frameTimeStamp frame,
                              data = stored\<rparr>
      in cam\<lparr>depthFile := file2,
              depthFrames := postNewValue compressedFrame (depthFrames cam),
              depthFrameIndex := depthFrameIndex cam + 1\<rparr>)"

text \<open>
  A USB device as the constructor sees it. Besides the identifiers and the serial number it
  carries what the camera and the compressors, which are not part of KinectServer.cpp, yield
  for it: the stream headers the two compressors emit on construction, the calibration, and
  the camera's initial background removal fuzz.
\<close>

record UsbDevice =
  vendorId :: "16 word"
  productId :: "16 word"
  serial :: string
  colorStreamHeader :: blob
  depthStreamHeader :: blob
  colorCalibration :: real
  depthCalibration :: real
  extrinsicCalibration :: real
  initialFuzz :: int

text \<open>
  The constructor \<^verbatim>\<open>CameraState::CameraState\<close> (lines 73-83): the compressors write their
  stream headers into the two memory files when they are constructed, and the body moves
  them into \<open>colorHeaders\<close> and \<open>depthHeaders\<close>. Both frame indices start at 0 and both
  flags at false.
\<close>

definition emptyFrame :: CompressedFrame where
  "emptyFrame = \<lparr>index = 0, timeStamp = 0, data = []\<rparr>"

definition emptyTripleBuffer :: TripleBuffer where
  "emptyTripleBuffer = \<lparr>lockedValue = emptyFrame, postedValue = emptyFrame, newValue = False\<rparr>"

definition newCameraState :: "UsbDevice \<Rightarrow> CameraState" where
  "newCameraState sDevice =
     (let colorFile0 = [] @ colorStreamHeader sDevice;
          depthFile0 = [] @ depthStreamHeader sDevice;
          (cHeaders, colorFile1) = storeBuffers colorFile0;
          (dHeaders, depthFile1) = storeBuffers depthFile0
      in \<lparr>camera = [],
          colorProjection = colorCalibration sDevice,
          depthProjection = depthCalibration sDevice,
          extrinsicParameters = extrinsicCalibration sDevice,
          colorFile = colorFile1, colorHeaders = cHeaders,
          colorFrames = emptyTripleBuffer, colorFrameIndex = 0, hasSentColorFrame = False,
          depthFile = depthFile1, depthHeaders = dHeaders,
          depthFrames = emptyTripleBuffer, depthFrameIndex = 0, hasSentDepthFrame = False\<rparr>)"

text \<open>\<^verbatim>\<open>CameraState::startStreaming\<close> (lines 91-95).\<close>

definition startStreaming :: "CameraState \<Rightarrow> CameraState" where
  "startStreaming cam = cam\<lparr>camera := camera cam @ [StartStreaming]\<rparr>"

subsection \<open>The server\<close>

datatype thread = NotStarted | Running | Ended status

text \<open>
  The members of \<^verbatim>\<open>KinectServer\<close> that KinectServer.cpp reads and writes. \<open>deletedSockets\<close>
  collects the sockets on which \<^verbatim>\<open>delete\<close> was called, \<open>errLog\<close> the messages about
  cameras that were not found, and \<open>nextSockId\<close> numbers the sockets the listening thread
  creates, so that two socket objects are never confused.
\<close>

record KinectServer =
  numCameras :: u32
  cameraStates :: "CameraState list"
  clients :: "client list"
  deletedSockets :: "client list"
  metaFrameIndex :: u32
  numMissingColorFrames :: u32
  numMissingDepthFrames :: u32
  listeningThread :: thread
  streamingThread :: thread
  nextSockId :: nat
  errLog :: "string list"

subsection \<open>The streaming thread (lines 183-360)\<close>

text \<open>
  The color branch of the camera loop's body (lines 200-266) for camera \<open>i\<close>. The second
  operand of \<^verbatim>\<open>&&\<close> is evaluated only when the first is true, so the triple buffer is only
  asked for a new value when the camera's color frame is still missing.
\<close>

definition colorBranch :: "u32 \<Rightarrow> bool \<Rightarrow> KinectServer \<Rightarrow> status \<times> bool \<times> KinectServer" where
  "colorBranch i foundFrame s =
    (if unat i < length (cameraStates s) then
       (let cam = cameraStates s ! unat i in
        if \<not> hasSentColorFrame cam then
          (case lockNewValue (colorFrames cam) of
             (False, tb) \<Rightarrow> (Completed, foundFrame, s)
           | (True, tb) \<Rightarrow>
               (case fanout (metaFrameIndex s) (i * 2 + 0) (data (getLockedValue tb))
                       (clients s) (deletedSockets s) of
                  (Completed, cs, del) \<Rightarrow>
                    (Completed, True,
                     s\<lparr>cameraStates := (cameraStates s)
                          [unat i := cam\<lparr>colorFrames := tb, hasSentColorFrame := True\<rparr>],
                       clients := cs, deletedSockets := del,
                       numMissingColorFrames := numMissingColorFrames s - 1\<rparr>)
                | (st, cs, del) \<Rightarrow>
                    (st, foundFrame,
                     s\<lparr>cameraStates := (cameraStates s)[unat i := cam\<lparr>colorFrames := tb\<rparr>],
                       clients := cs, deletedSockets := del\<rparr>)))
        else (Completed, foundFrame, s))
     else (OutOfBounds, foundFrame, s))"

text \<open>The depth branch (lines 267-334); it is not guarded by \<open>foundFrame\<close>.\<close>

definition depthBranch :: "u32 \<Rightarrow> bool \<Rightarrow> KinectServer \<Rightarrow> status \<times> bool \<times> KinectServer" where
  "depthBranch i foundFrame s =
    (if unat i < length (cameraStates s) then
       (let cam = cameraStates s ! unat i in
        if \<not> hasSentDepthFrame cam then
          (case lockNewValue (depthFrames cam) of
             (False, tb) \<Rightarrow> (Completed, foundFrame, s)
           | (True, tb) \<Rightarrow>
               (case fanout (metaFrameIndex s) (i * 2 + 1) (data (getLockedValue tb))
                       (clients s) (deletedSockets s) of
                  (Completed, cs, del) \<Rightarrow>
                    (Completed, True,
                     s\<lparr>cameraStates := (cameraStates s)
                          [unat i := cam\<lparr>depthFrames := tb, hasSentDepthFrame := True\<rparr>],
                       clients := cs, deletedSockets := del,
                       numMissingDepthFrames := numMissingDepthFrames s - 1\<rparr>)
                | (st, cs, del) \<Rightarrow>
                    (st, foundFrame,
                     s\<lparr>cameraStates := (cameraStates s)[unat i := cam\<lparr>depthFrames := tb\<rparr>],
                       clients := cs, deletedSockets := del\<rparr>)))
        else (Completed, foundFrame, s))
     else (OutOfBounds, foundFrame, s))"

text \<open>
  The camera loop \<^verbatim>\<open>for(unsigned int i=0;!foundFrame&&i<numCameras;++i)\<close> (lines 198-335),
  entered at \<open>i\<close> with the current value of \<open>foundFrame\<close>.
\<close>

function scanCameras :: "u32 \<Rightarrow> bool \<Rightarrow> KinectServer \<Rightarrow> status \<times> bool \<times> KinectServer" where
  "scanCameras i foundFrame s =
    (if \<not> foundFrame \<and> i < numCameras s then
       (case colorBranch i foundFrame s of
          (Completed, found1, s1) \<Rightarrow>
            (case depthBranch i found1 s1 of
               (Completed, found2, s2) \<Rightarrow> scanCameras (i + 1) found2 s2
             | (st, found2, s2) \<Rightarrow> (st, found2, s2))
        | (st, found1, s1) \<Rightarrow> (st, found1, s1))
     else (Completed, foundFrame, s))"
  by pat_completeness auto
termination
proof (relation "measure (\<lambda>(i, f, s). 2 ^ 32 - unat i)", goal_cases)
  case 1
  show ?case by simp
next
  case (2 i foundFrame s x y found1 s1 x2 y2 found2 s2)
  then have "i < numCameras s" by simp
  then have "unat (i + 1) = Suc (unat i)" by unat_arith
  moreover have "unat i < 2 ^ 32" using unsigned_less [of i, where ?'a = nat] by simp
  ultimately show ?case by simp
qed

text \<open>
  The start of a new meta-frame (lines 343-351): the loop that clears the flags of the
  cameras, entered at \<open>i\<close>, and the block as a whole.
\<close>

function resetFlags :: "u32 \<Rightarrow> KinectServer \<Rightarrow> status \<times> KinectServer" where
  "resetFlags i s =
    (if i < numCameras s then
       (if unat i < length (cameraStates s) then
          resetFlags (i + 1)
            (s\<lparr>cameraStates := (cameraStates s)
                 [unat i := (cameraStates s ! unat i)
                    \<lparr>hasSentColorFrame := False, hasSentDepthFrame := False\<rparr>]\<rparr>)
        else (OutOfBounds, s))
     else (Completed, s))"
  by pat_completeness auto
termination
proof (relation "measure (\<lambda>(i, s). 2 ^ 32 - unat i)", goal_cases)
  case 1
  show ?case by simp
next
  case (2 i s)
  then have "unat (i + 1) = Suc (unat i)" by unat_arith
  moreover have "unat i < 2 ^ 32" using unsigned_less [of i, where ?'a = nat] by simp
  ultimately show ?case by simp
qed

definition startNewMetaFrame :: "KinectServer \<Rightarrow> status \<times> KinectServer" where
  "startNewMetaFrame s =
    (case resetFlags 0 (s\<lparr>metaFrameIndex := metaFrameIndex s + 1\<rparr>) of
       (Completed, s1) \<Rightarrow>
         (Completed, s1\<lparr>numMissingColorFrames := numCameras s1,
                        numMissingDepthFrames := numCameras s1\<rparr>)
     | (st, s1) \<Rightarrow> (st, s1))"

text \<open>
  One step of the streaming thread: while a frame is missing, one iteration of the inner
  \<^verbatim>\<open>while\<close> loop (a scan of the cameras from 0 and, if nothing was found, the wait on the
  condition variable, which changes no data); otherwise the start of the next meta-frame.
  An exception that leaves \<^verbatim>\<open>streamingThreadMethod\<close>, and undefined behaviour, end the thread.
\<close>

definition streamingThreadStep :: "KinectServer \<Rightarrow> KinectServer" where
  "streamingThreadStep s =
    (if numMissingDepthFrames s > 0 \<or> numMissingColorFrames s > 0 then
       (case scanCameras 0 False s of
          (Completed, foundFrame, s1) \<Rightarrow> s1
        | (st, foundFrame, s1) \<Rightarrow> s1\<lparr>streamingThread := Ended st\<rparr>)
     else
       (case startNewMetaFrame s of
          (Completed, s1) \<Rightarrow> s1
        | (st, s1) \<Rightarrow> s1\<lparr>streamingThread := Ended st\<rparr>))"

subsection \<open>The listening thread (lines 117-181)\<close>

datatype outcome = Done | Threw exn | BadIndex

text \<open>A sequence of output calls on a socket; the first one that throws ends it.\<close>

fun writeAll :: "item list \<Rightarrow> client \<Rightarrow> outcome \<times> client" where
  "writeAll [] sink = (Done, sink)"
| "writeAll (x # xs) sink =
     (case writeItem x sink of
        Inl e \<Rightarrow> (Threw e, sink)
      | Inr sink1 \<Rightarrow> writeAll xs sink1)"

text \<open>
  \<^verbatim>\<open>CameraState::writeHeaders\<close> (lines 97-111): five output calls on the sink, one after the
  other; a call that throws leaves the method, and the calls after it are not made.
\<close>

definition writeHeaders :: "CameraState \<Rightarrow> client \<Rightarrow> outcome \<times> client" where
  "writeHeaders cam sink =
    (case writeItem (Buffers (colorHeaders cam)) sink of
       Inl e \<Rightarrow> (Threw e, sink)
     | Inr sink1 \<Rightarrow>
    (case writeItem (Buffers (depthHeaders cam)) sink1 of
       Inl e \<Rightarrow> (Threw e, sink1)
     | Inr sink2 \<Rightarrow>
    (case writeItem (PTransform (colorProjection cam)) sink2 of
       Inl e \<Rightarrow> (Threw e, sink2)
     | Inr sink3 \<Rightarrow>
    (case writeItem (PTransform (depthProjection cam)) sink3 of
       Inl e \<Rightarrow> (Threw e, sink3)
     | Inr sink4 \<Rightarrow>
    (case writeItem (Extrinsic (extrinsicParameters cam)) sink4 of
       Inl e \<Rightarrow> (Threw e, sink4)
     | Inr sink5 \<Rightarrow> (Done, sink5))))))"

text \<open>The loop of lines 154-155, entered at \<open>i\<close>.\<close>

function sendCameraHeaders :: "u32 \<Rightarrow> KinectServer \<Rightarrow> client \<Rightarrow> outcome \<times> client" where
  "sendCameraHeaders i s sock =
    (if i < numCameras s then
       (if unat i < length (cameraStates s) then
          (case writeHeaders (cameraStates s ! unat i) sock of
             (Done, sock1) \<Rightarrow> sendCameraHeaders (i + 1) s sock1
           | (r, sock1) \<Rightarrow> (r, sock1))
        else (BadIndex, sock))
     else (Done, sock))"
  by pat_completeness auto
termination
proof (relation "measure (\<lambda>(i, s, c). 2 ^ 32 - unat i)", goal_cases)
  case 1
  show ?case by simp
next
  case (2 i s sock x y)
  then have "unat (i + 1) = Suc (unat i)" by unat_arith
  moreover have "unat i < 2 ^ 32" using unsigned_less [of i, where ?'a = nat] by simp
  ultimately show ?case by simp
qed

text \<open>The statements of the second \<^verbatim>\<open>try\<close> block up to the flush (lines 152-156).\<close>

definition sendStreamHeaders :: "KinectServer \<Rightarrow> client \<Rightarrow> outcome \<times> client" where
  "sendStreamHeaders s sock =
    (case writeItem (U32 0x12345678) sock of
       Inl e \<Rightarrow> (Threw e, sock)
     | Inr sock1 \<Rightarrow>
    (case writeItem (U32 (numCameras s)) sock1 of
       Inl e \<Rightarrow> (Threw e, sock1)
     | Inr sock2 \<Rightarrow>
    (case sendCameraHeaders 0 s sock2 of
       (Done, sock3) \<Rightarrow>
         (case writeItem Flushed sock3 of
            Inl e \<Rightarrow> (Threw e, sock3)
          | Inr sock4 \<Rightarrow> (Done, sock4))
     | (r, sock3) \<Rightarrow> (r, sock3))))"

text \<open>
  What the environment decides about a socket: the answers of the next poll and the next
  read, and the fault of the output side.
\<close>

type_synonym peer = "(exn + bool) \<times> (exn + u32) \<times> (nat \<times> exn) option"

definition newTCPPipe :: "nat \<Rightarrow> peer \<Rightarrow> client" where
  "newTCPPipe n p =
     (case p of (r, q, w) \<Rightarrow>
        \<lparr>sockId = n, readable = r, request = q, writable = w, received = [], sent = []\<rparr>)"

text \<open>
  One iteration of the listening thread's loop (lines 124-177), given what the constructor
  \<^verbatim>\<open>new Comm::TCPPipe(listeningSocket)\<close> does: throw, or return a connected socket. After a
  caught \<^verbatim>\<open>std::runtime_error\<close> of the first \<^verbatim>\<open>try\<close> block \<open>newClientSocket\<close> is still null, and
  the second block calls \<^verbatim>\<open>write\<close> through it.
\<close>

definition listeningThreadStep :: "exn + peer \<Rightarrow> KinectServer \<Rightarrow> KinectServer" where
  "listeningThreadStep accepted s =
    (case accepted of
       Inl RuntimeError \<Rightarrow> s\<lparr>listeningThread := Ended NullPointer\<rparr>
     | Inl OtherException \<Rightarrow> s\<lparr>listeningThread := Ended Rethrown\<rparr>
     | Inr p \<Rightarrow>
        (let newClientSocket = newTCPPipe (nextSockId s) p;
             s0 = s\<lparr>nextSockId := Suc (nextSockId s)\<rparr>
         in case sendStreamHeaders s0 newClientSocket of
              (Done, sock) \<Rightarrow> s0\<lparr>clients := clients s0 @ [sock]\<rparr>
            | (Threw RuntimeError, sock) \<Rightarrow>
                s0\<lparr>deletedSockets := deletedSockets s0 @ [sock]\<rparr>
            | (Threw OtherException, sock) \<Rightarrow>
                s0\<lparr>deletedSockets := deletedSockets s0 @ [sock],
                   listeningThread := Ended Rethrown\<rparr>
            | (BadIndex, sock) \<Rightarrow> s0\<lparr>listeningThread := Ended OutOfBounds\<rparr>))"

subsection \<open>The constructor (lines 362-460)\<close>

text \<open>
  A camera's section of the configuration file. A key that is absent is \<open>None\<close>; the key
  \<^verbatim>\<open>serialNumber\<close> is retrieved without a default, so its absence throws.
\<close>

record CameraSection =
  serialNumber :: "string option"
  removeBackground :: "bool option"
  backgroundFile :: "string option"
  captureBackgroundFrames :: "u32 option"
  maxDepth :: "u32 option"
  backgroundFuzz :: "int option"

definition retrieveValue :: "'a option \<Rightarrow> 'a \<Rightarrow> 'a" where
  "retrieveValue v dflt = (case v of None \<Rightarrow> dflt | Some x \<Rightarrow> x)"

definition isKinect :: "UsbDevice \<Rightarrow> bool" where
  "isKinect d \<longleftrightarrow> vendorId d = 0x045e \<and> productId d = 0x02ae"

text \<open>The search loop of lines 385-392: the index of the first device with the serial number.\<close>

fun findDevice :: "string \<Rightarrow> UsbDevice list \<Rightarrow> nat" where
  "findDevice sn [] = 0"
| "findDevice sn (d # ds) = (if serial d = sn then 0 else Suc (findDevice sn ds))"

text \<open>The background removal set-up of lines 401-435.\<close>

definition configureCamera :: "CameraSection \<Rightarrow> UsbDevice \<Rightarrow> CameraState \<Rightarrow> CameraState" where
  "configureCamera cameraSection dev cam =
    (if retrieveValue (removeBackground cameraSection) True then
       (let file = retrieveValue (backgroundFile cameraSection) [];
            calls1 = (if file \<noteq> [] then [LoadBackground file] else []);
            frames = retrieveValue (captureBackgroundFrames cameraSection) 0;
            calls2 = (if frames > 0 then [CaptureBackground frames False] else []);
            depth = retrieveValue (maxDepth cameraSection) 0;
            calls3 = (if depth > 0 then [SetMaxDepth depth False] else []);
            fuzz = retrieveValue (backgroundFuzz cameraSection) (initialFuzz dev)
        in cam\<lparr>camera := camera cam @ calls1 @ calls2 @ calls3 @
                   [SetBackgroundRemovalFuzz fuzz, SetRemoveBackground True]\<rparr>)
     else cam)"

definition notFound :: "string \<Rightarrow> string" where
  "notFound sn = ''Kinect camera with serial number '' @ sn @ '' not found on USB bus''"

text \<open>
  The loop over the configured cameras (lines 378-441). The triple is the counter
  \<open>numFoundCameras\<close>, the initialised front of the array \<open>cameraStates\<close>, and what was
  written to \<^verbatim>\<open>std::cerr\<close>.
\<close>

fun createCameras ::
  "CameraSection list \<Rightarrow> UsbDevice list \<Rightarrow> u32 \<times> CameraState list \<times> string list
     \<Rightarrow> exn + u32 \<times> CameraState list \<times> string list" where
  "createCameras [] kinects acc = Inr acc"
| "createCameras (cameraSection # rest) kinects (numFoundCameras, cams, msgs) =
    (case serialNumber cameraSection of
       None \<Rightarrow> Inl RuntimeError
     | Some sn \<Rightarrow>
        (let j = findDevice sn kinects in
         if j < length kinects then
           createCameras rest kinects
             (numFoundCameras + 1,
              cams @ [configureCamera cameraSection (kinects ! j) (newCameraState (kinects ! j))],
              msgs)
         else createCameras rest kinects (numFoundCameras, cams, msgs @ [notFound sn])))"

text \<open>The loop of lines 458-459, entered at \<open>i\<close>.\<close>

function startAll :: "u32 \<Rightarrow> u32 \<Rightarrow> CameraState list \<Rightarrow> CameraState list" where
  "startAll i n cams =
    (if i < n \<and> unat i < length cams
     then startAll (i + 1) n (cams[unat i := startStreaming (cams ! unat i)])
     else cams)"
  by pat_completeness auto
termination
proof (relation "measure (\<lambda>(i, n, cams). 2 ^ 32 - unat i)", goal_cases)
  case 1
  show ?case by simp
next
  case (2 i n cams)
  then have "i < n" by simp
  then have "unat (i + 1) = Suc (unat i)" by unat_arith
  moreover have "unat i < 2 ^ 32" using unsigned_less [of i, where ?'a = nat] by simp
  ultimately show ?case by simp
qed

text \<open>
  The constructor: the cameras are looked up, the streaming state is initialised (lines
  447-450), the listening thread is started, the streaming thread is started if
  \<open>numCameras > 0\<close>, and streaming is started on the cameras. An exception in the loop
  leaves the constructor.
\<close>

definition newKinectServer :: "UsbDevice list \<Rightarrow> CameraSection list \<Rightarrow> exn + KinectServer" where
  "newKinectServer usbDevices cameraSections =
    (case createCameras cameraSections (filter isKinect usbDevices) (0, [], []) of
       Inl e \<Rightarrow> Inl e
     | Inr (numFoundCameras, cams, msgs) \<Rightarrow>
         Inr \<lparr>numCameras = numFoundCameras,
              cameraStates = startAll 0 numFoundCameras cams,
              clients = [], deletedSockets = [],
              metaFrameIndex = 0,
              numMissingColorFrames = numFoundCameras,
              numMissingDepthFrames = numFoundCameras,
              listeningThread = Running,
              streamingThread = (if numFoundCameras > 0 then Running else NotStarted),
              nextSockId = 0, errLog = msgs\<rparr>)"

subsection \<open>Runs of the server\<close>

text \<open>
  The threads of the server and its environment take turns. An event is: a camera's color or
  depth decoder calls its streaming callback with a frame; the listening thread's accept
  returns; the peer of a socket changes what the socket will answer; the streaming thread
  takes its next step. A thread that has ended takes no more steps, and a camera calls back
  only after \<^verbatim>\<open>startStreaming\<close>. The streaming thread inspects each triple buffer at most
  once per scan, so a commit during a scan is seen either by that scan or by the next one,
  as if it had happened before or after the scan.
\<close>

datatype event =
    ColorFrame nat FrameBuffer
  | DepthFrame nat FrameBuffer
  | Connection "exn + peer"
  | Peer nat peer
  | Stream

definition setPeer :: "nat \<Rightarrow> peer \<Rightarrow> client \<Rightarrow> client" where
  "setPeer n p c =
     (if sockId c = n
      then (case p of (r, q, w) \<Rightarrow> c\<lparr>readable := r, request := q, writable := w\<rparr>)
      else c)"

fun step :: "event \<Rightarrow> KinectServer \<Rightarrow> KinectServer" where
  "step (ColorFrame i frame) s =
     (if i < length (cameraStates s) \<and> StartStreaming \<in> set (camera (cameraStates s ! i))
      then s\<lparr>cameraStates := (cameraStates s)
                [i := colorStreamingCallback frame (cameraStates s ! i)]\<rparr>
      else s)"
| "step (DepthFrame i frame) s =
     (if i < length (cameraStates s) \<and> StartStreaming \<in> set (camera (cameraStates s ! i))
      then s\<lparr>cameraStates := (cameraStates s)
                [i := depthStreamingCallback frame (cameraStates s ! i)]\<rparr>
      else s)"
| "step (Connection accepted) s =
     (if listeningThread s = Running then listeningThreadStep accepted s else s)"
| "step (Peer n p) s = s\<lparr>clients := map (setPeer n p) (clients s)\<rparr>"
| "step Stream s =
     (if streamingThread s = Running then streamingThreadStep s else s)"

definition run :: "event list \<Rightarrow> KinectServer \<Rightarrow> KinectServer" where
  "run evs s = fold step evs s"

subsection \<open>Notions used in the statements\<close>

text \<open>
  The callbacks a single camera receives, in the order in which they run: each is a color or
  a depth frame. \<open>committedColor\<close> and \<open>committedDepth\<close> are the frames most recently
  committed to the two triple buffers after such a sequence.
\<close>

datatype kind = Color | Depth

definition streamingCallback :: "kind \<times> FrameBuffer \<Rightarrow> CameraState \<Rightarrow> CameraState" where
  "streamingCallback e cam =
     (case e of (Color, frame) \<Rightarrow> colorStreamingCallback frame cam
              | (Depth, frame) \<Rightarrow> depthStreamingCallback frame cam)"

definition deliver :: "(kind \<times> FrameBuffer) list \<Rightarrow> CameraState \<Rightarrow> CameraState" where
  "deliver es cam = fold streamingCallback es cam"

definition countKind :: "kind \<Rightarrow> (kind \<times> FrameBuffer) list \<Rightarrow> nat" where
  "countKind k es = length (filter (\<lambda>e. fst e = k) es)"

definition committedColor :: "(kind \<times> FrameBuffer) list \<Rightarrow> CameraState \<Rightarrow> CompressedFrame" where
  "committedColor es cam = postedValue (colorFrames (deliver es cam))"

definition committedDepth :: "(kind \<times> FrameBuffer) list \<Rightarrow> CameraState \<Rightarrow> CompressedFrame" where
  "committedDepth es cam = postedValue (depthFrames (deliver es cam))"

text \<open>Concrete inputs for the examples.\<close>

definition frame0 :: FrameBuffer where
  "frame0 = \<lparr>frameTimeStamp = 0, encoding = [7]\<rparr>"

definition device0 :: UsbDevice where
  "device0 = \<lparr>vendorId = 0x045e, productId = 0x02ae, serial = ''A'',
     colorStreamHeader = [1], depthStreamHeader = [2], colorCalibration = 0,
     depthCalibration = 0, extrinsicCalibration = 0, initialFuzz = 0\<rparr>"

text \<open>
  The fan-out as a traversal of the client list: the clients are served one after the
  other, front to back, each exactly once; a client whose service ends with \<open>Written\<close>
  stays in the list, every other client is deleted, and the rethrow of an exception that is
  not a \<^verbatim>\<open>std::runtime_error\<close> ends the traversal, leaving the clients behind it untouched.
  The result is the status, the list of the clients kept, and the list of those deleted.
  This definition has no indices; the loop of the source is compared with it below.
\<close>

fun serveEachOnce ::
  "u32 \<Rightarrow> u32 \<Rightarrow> blob \<Rightarrow> client list \<Rightarrow> status \<times> client list \<times> client list" where
  "serveEachOnce m f d [] = (Completed, [], [])"
| "serveEachOnce m f d (c # cs) =
    (case serve m f d c of
       (Written, c') \<Rightarrow>
         (case serveEachOnce m f d cs of (st, kept, del) \<Rightarrow> (st, c' # kept, del))
     | (Requested, c') \<Rightarrow>
         (case serveEachOnce m f d cs of (st, kept, del) \<Rightarrow> (st, kept, c' # del))
     | (Raised RuntimeError, c') \<Rightarrow>
         (case serveEachOnce m f d cs of (st, kept, del) \<Rightarrow> (st, kept, c' # del))
     | (Raised OtherException, c') \<Rightarrow> (Rethrown, cs, [c']))"

text \<open>
  A client is \<open>spurious\<close> for a frame if serving it raises an exception that is not a
  \<^verbatim>\<open>std::runtime_error\<close>. \<open>keptOf\<close> are the clients that were written to, after the write;
  \<open>removedOf\<close> are all the others, as they were when they were deleted.
\<close>

definition spurious :: "u32 \<Rightarrow> u32 \<Rightarrow> blob \<Rightarrow> client \<Rightarrow> bool" where
  "spurious m f d c \<longleftrightarrow> fst (serve m f d c) = Raised OtherException"

definition keptOf :: "u32 \<Rightarrow> u32 \<Rightarrow> blob \<Rightarrow> client list \<Rightarrow> client list" where
  "keptOf m f d cs =
     map (\<lambda>c. snd (serve m f d c)) (filter (\<lambda>c. fst (serve m f d c) = Written) cs)"

definition removedOf :: "u32 \<Rightarrow> u32 \<Rightarrow> blob \<Rightarrow> client list \<Rightarrow> client list" where
  "removedOf m f d cs =
     map (\<lambda>c. snd (serve m f d c)) (filter (\<lambda>c. fst (serve m f d c) \<noteq> Written) cs)"

text \<open>
  Example sockets: one that has nothing to read and accepts every write; one that has sent a
  disconnect request; one whose second output call throws a \<^verbatim>\<open>std::runtime_error\<close>; one
  whose first output call throws something else.
\<close>

definition quietPeer :: peer where
  "quietPeer = (Inr False, Inl RuntimeError, None)"

definition quietClient :: "nat \<Rightarrow> client" where
  "quietClient n = newTCPPipe n quietPeer"

definition leavingClient :: "nat \<Rightarrow> client" where
  "leavingClient n = newTCPPipe n (Inr True, Inr 0, None)"

definition brokenClient :: "nat \<Rightarrow> client" where
  "brokenClient n = newTCPPipe n (Inr False, Inl RuntimeError, Some (1, RuntimeError))"

definition faultyClient :: "nat \<Rightarrow> client" where
  "faultyClient n = newTCPPipe n (Inr False, Inl RuntimeError, Some (0, OtherException))"

text \<open>
  A camera is ready for a kind if its frame of that kind is still missing in the current
  meta-frame and its triple buffer holds a commit that was not locked yet. \<open>cameraTurn\<close> is
  the body of the camera loop for camera \<open>i\<close>, entered with \<open>foundFrame\<close> false: the
  color branch followed by the depth branch. A client list is quiet if every socket has
  nothing to read and accepts every write; \<open>receive\<close> appends one frame record to a
  socket's output.
\<close>

definition colorReady :: "CameraState \<Rightarrow> bool" where
  "colorReady cam \<longleftrightarrow> \<not> hasSentColorFrame cam \<and> newValue (colorFrames cam)"

definition depthReady :: "CameraState \<Rightarrow> bool" where
  "depthReady cam \<longleftrightarrow> \<not> hasSentDepthFrame cam \<and> newValue (depthFrames cam)"

definition cameraTurn :: "u32 \<Rightarrow> KinectServer \<Rightarrow> status \<times> bool \<times> KinectServer" where
  "cameraTurn i s =
     (case colorBranch i False s of
        (Completed, found1, s1) \<Rightarrow> depthBranch i found1 s1
      | (st, found1, s1) \<Rightarrow> (st, found1, s1))"

definition allQuiet :: "client list \<Rightarrow> bool" where
  "allQuiet cs \<longleftrightarrow> (\<forall>c\<in>set cs. readable c = Inr False \<and> writable c = None)"

definition receive :: "u32 \<Rightarrow> u32 \<Rightarrow> blob \<Rightarrow> client \<Rightarrow> client" where
  "receive m f d c = c\<lparr>sent := sent c @ [U32 m, U32 f, Buffers d, Flushed]\<rparr>"

text \<open>A second device and a server with two cameras, for the examples.\<close>

definition device1 :: UsbDevice where
  "device1 = \<lparr>vendorId = 0x045e, productId = 0x02ae, serial = ''B'',
     colorStreamHeader = [3], depthStreamHeader = [4], colorCalibration = 0,
     depthCalibration = 0, extrinsicCalibration = 0, initialFuzz = 0\<rparr>"

definition plainSection :: "string \<Rightarrow> CameraSection" where
  "plainSection sn = \<lparr>serialNumber = Some sn, removeBackground = Some False,
     backgroundFile = None, captureBackgroundFrames = None, maxDepth = None,
     backgroundFuzz = None\<rparr>"

definition twoCameraServer :: KinectServer where
  "twoCameraServer = projr (newKinectServer [device0, device1] [plainSection ''A'', plainSection ''B''])"

text \<open>
  Two devices whose headers and calibrations all differ, and the server with these two
  cameras.
\<close>

definition kinectL :: UsbDevice where
  "kinectL = \<lparr>vendorId = 0x045e, productId = 0x02ae, serial = ''L'',
     colorStreamHeader = [1], depthStreamHeader = [2], colorCalibration = 1,
     depthCalibration = 2, extrinsicCalibration = 3, initialFuzz = 0\<rparr>"

definition kinectR :: UsbDevice where
  "kinectR = \<lparr>vendorId = 0x045e, productId = 0x02ae, serial = ''R'',
     colorStreamHeader = [3], depthStreamHeader = [4], colorCalibration = 4,
     depthCalibration = 5, extrinsicCalibration = 6, initialFuzz = 0\<rparr>"

definition stereoServer :: KinectServer where
  "stereoServer = projr (newKinectServer [kinectL, kinectR] [plainSection ''L'', plainSection ''R''])"

text \<open>
  Example runs on the server with two cameras: one client connects and camera 0 commits a
  color and a depth frame; one client connects and camera 1 commits a color frame.
\<close>

definition bothReadyServer :: KinectServer where
  "bothReadyServer =
     run [Connection (Inr quietPeer), ColorFrame 0 frame0, DepthFrame 0 frame0] twoCameraServer"

definition cameraOneFirstServer :: KinectServer where
  "cameraOneFirstServer =
     run [Connection (Inr quietPeer), ColorFrame 1 frame0] twoCameraServer"

text \<open>
  The initialisation snapshot as a list of items: the magic number, the camera count, then
  for each camera in index order the color stream header, the depth stream header, the
  color projection, the depth projection and the extrinsic parameters, and the flush. The
  model of the listening thread does not use these two definitions; it is compared with
  them below, and the statements spell the items out. A socket \<open>accepts\<close> \<open>n\<close> output calls if
  none of its next \<open>n\<close> output calls throws.
\<close>

definition headerItems :: "CameraState \<Rightarrow> item list" where
  "headerItems cam =
     [Buffers (colorHeaders cam), Buffers (depthHeaders cam),
      PTransform (colorProjection cam), PTransform (depthProjection cam),
      Extrinsic (extrinsicParameters cam)]"

definition streamHeader :: "KinectServer \<Rightarrow> item list" where
  "streamHeader s =
     [U32 0x12345678, U32 (numCameras s)]
     @ concat (map headerItems (take (unat (numCameras s)) (cameraStates s)))
     @ [Flushed]"

definition accepts :: "nat \<Rightarrow> (nat \<times> exn) option \<Rightarrow> bool" where
  "accepts n w \<longleftrightarrow> (case w of None \<Rightarrow> True | Some (k, e) \<Rightarrow> n \<le> k)"

text \<open>
  A configured camera is \<open>present\<close> if the search loop finds a Kinect device with its
  serial number; \<open>cameraFor\<close> is the camera state the constructor then creates and
  configures for it, and \<open>missingMessage\<close> the line it writes for a camera that is not
  present.
\<close>

definition present :: "UsbDevice list \<Rightarrow> CameraSection \<Rightarrow> bool" where
  "present kinects cameraSection \<longleftrightarrow>
     (case serialNumber cameraSection of
        None \<Rightarrow> False
      | Some sn \<Rightarrow> findDevice sn kinects < length kinects)"

definition cameraFor :: "UsbDevice list \<Rightarrow> CameraSection \<Rightarrow> CameraState" where
  "cameraFor kinects cameraSection =
     (let dev = kinects ! findDevice (the (serialNumber cameraSection)) kinects
      in configureCamera cameraSection dev (newCameraState dev))"

definition missingMessage :: "CameraSection \<Rightarrow> string" where
  "missingMessage cameraSection = notFound (the (serialNumber cameraSection))"

text \<open>
  What follows the snapshot on a client's socket is a sequence of frame records, each made of
  the meta-frame index, the frame identifier, the compressed frame and the flush.
  \<open>snapshot\<close> is the initialisation snapshot as a function of the camera count and of
  the cameras' header items. \<open>headersInv\<close> says of a state that it has this camera count
  and these header items and that every client in the list has been sent the snapshot
  followed by complete frame records; \<open>deletedInv\<close> says that every deleted socket has
  been sent either an initial part of the snapshot, or the snapshot followed by complete
  frame records and an initial part of one more.
\<close>

fun frameRecords :: "item list \<Rightarrow> bool" where
  "frameRecords [] = True"
| "frameRecords (U32 m # U32 f # Buffers d # Flushed # rest) = frameRecords rest"
| "frameRecords _ = False"

definition snapshot :: "u32 \<Rightarrow> item list list \<Rightarrow> item list" where
  "snapshot n hs = [U32 0x12345678, U32 n] @ concat (take (unat n) hs) @ [Flushed]"

definition headersInv :: "u32 \<Rightarrow> item list list \<Rightarrow> KinectServer \<Rightarrow> bool" where
  "headersInv n hs s \<longleftrightarrow>
     numCameras s = n \<and> map headerItems (cameraStates s) = hs \<and> unat n \<le> length hs
     \<and> (\<forall>c\<in>set (clients s). \<exists>fs. sent c = snapshot n hs @ fs \<and> frameRecords fs)"

definition deletedInv :: "u32 \<Rightarrow> item list list \<Rightarrow> KinectServer \<Rightarrow> bool" where
  "deletedInv n hs s \<longleftrightarrow>
     (\<forall>c\<in>set (deletedSockets s).
        (\<exists>k. sent c = take k (snapshot n hs))
        \<or> (\<exists>fs k m f d. sent c = snapshot n hs @ fs @ take k [U32 m, U32 f, Buffers d, Flushed]
              \<and> frameRecords fs))"

subsection \<open>Meta-frames on a socket\<close>

text \<open>
  The frame records at the front of a sequence of output items, each as its pair of
  meta-frame index and frame identifier (the two words of lines 234-235 and 302-303; the
  identifier is \<open>i*2+0\<close> for the color frame of camera \<open>i\<close> and \<open>i*2+1\<close> for its depth frame).
\<close>

fun records :: "item list \<Rightarrow> (u32 \<times> u32) list" where
  "records (U32 m # U32 f # Buffers d # Flushed # rest) = (m, f) # records rest"
| "records _ = []"

text \<open>
  A run stays within meta-frame \<open>m\<close>: after every one of its events, \<^verbatim>\<open>metaFrameIndex\<close> is \<open>m\<close>.
\<close>

fun duringMetaFrame :: "u32 \<Rightarrow> event list \<Rightarrow> KinectServer \<Rightarrow> bool" where
  "duringMetaFrame m [] s = True"
| "duringMetaFrame m (e # evs) s =
     (metaFrameIndex (step e s) = m \<and> duringMetaFrame m evs (step e s))"

text \<open>
  The cameras whose \<^verbatim>\<open>hasSentColorFrame\<close> and \<^verbatim>\<open>hasSentDepthFrame\<close> flags are set, and the frame
  identifiers that stand for the set flags.
\<close>

definition colorSent :: "CameraState list \<Rightarrow> u32 set" where
  "colorSent cams = {i. unat i < length cams \<and> hasSentColorFrame (cams ! unat i)}"

definition depthSent :: "CameraState list \<Rightarrow> u32 set" where
  "depthSent cams = {i. unat i < length cams \<and> hasSentDepthFrame (cams ! unat i)}"

definition sentIds :: "CameraState list \<Rightarrow> u32 set" where
  "sentIds cams = (\<lambda>i. i * 2 + 0) ` colorSent cams \<union> (\<lambda>i. i * 2 + 1) ` depthSent cams"

text \<open>
  What holds of the server within a meta-frame: the camera array has \<^verbatim>\<open>numCameras\<close> entries,
  few enough for \<open>i*2+1\<close> not to wrap; the two counters count the cameras whose flags are
  clear; the sockets in the client list are distinct, and older than the next socket; and
  the socket numbered \<open>p\<close>, if one is followed, has received since the start of the
  meta-frame, while in the list, exactly the frames whose flags are set, each once and each
  tagged with the meta-frame's index. The counters and the socket are described while the
  streaming thread runs.
\<close>

definition wfInv :: "u32 \<Rightarrow> KinectServer \<Rightarrow> bool" where
  "wfInv n s \<longleftrightarrow>
     numCameras s = n \<and> length (cameraStates s) = unat n \<and> unat n \<le> 2 ^ 31"

definition countersInv :: "KinectServer \<Rightarrow> bool" where
  "countersInv s \<longleftrightarrow>
     unat (numMissingColorFrames s)
         = length (filter (\<lambda>cam. \<not> hasSentColorFrame cam) (cameraStates s))
     \<and> unat (numMissingDepthFrames s)
         = length (filter (\<lambda>cam. \<not> hasSentDepthFrame cam) (cameraStates s))"

definition socketsInv :: "nat option \<Rightarrow> KinectServer \<Rightarrow> bool" where
  "socketsInv p s \<longleftrightarrow>
     distinct (map sockId (clients s))
     \<and> (\<forall>c\<in>set (clients s). sockId c < nextSockId s)
     \<and> (\<forall>q. p = Some q \<longrightarrow> q < nextSockId s)"

definition clientInv :: "nat option \<Rightarrow> item list \<Rightarrow> u32 \<Rightarrow> KinectServer \<Rightarrow> bool" where
  "clientInv p log0 m s \<longleftrightarrow>
     (\<forall>c\<in>set (clients s). p = Some (sockId c) \<longrightarrow>
        (\<exists>fs. sent c = log0 @ fs \<and> frameRecords fs
           \<and> (\<forall>r\<in>set (records fs). fst r = m)
           \<and> distinct (map snd (records fs))
           \<and> set (map snd (records fs)) = sentIds (cameraStates s)))"

definition metaInv :: "u32 \<Rightarrow> nat option \<Rightarrow> item list \<Rightarrow> u32 \<Rightarrow> KinectServer \<Rightarrow> bool" where
  "metaInv n p log0 m s \<longleftrightarrow>
     wfInv n s \<and> socketsInv p s \<and> metaFrameIndex s = m
     \<and> (streamingThread s = Running \<longrightarrow> countersInv s \<and> clientInv p log0 m s)"

text \<open>
  Events of two meta-frames of the server with two cameras: a client connects and both
  cameras deliver both frames; then the frames arrive as color 1, color 0, depth 0, depth 1.
\<close>

definition firstMetaFrame :: "event list" where
  "firstMetaFrame =
     [Connection (Inr quietPeer), ColorFrame 0 frame0, DepthFrame 0 frame0, Stream,
      ColorFrame 1 frame0, DepthFrame 1 frame0, Stream, Stream]"

definition secondMetaFrame :: "event list" where
  "secondMetaFrame =
     [ColorFrame 1 frame0, Stream, ColorFrame 0 frame0, DepthFrame 0 frame0,
      DepthFrame 1 frame0, Stream, Stream]"

text \<open>
  A meta-frame starts when the server has been constructed, and with every step that
  changes \<^verbatim>\<open>metaFrameIndex\<close>: \<open>pre\<close> is a run up to the start of a meta-frame.
\<close>

definition startsMetaFrame :: "event list \<Rightarrow> KinectServer \<Rightarrow> bool" where
  "startsMetaFrame pre s \<longleftrightarrow>
     pre = [] \<or>
     (last pre = Stream \<and> metaFrameIndex (run pre s) \<noteq> metaFrameIndex (run (butlast pre) s))"

section \<open>Properties\<close>

text \<open>The loops are unfolded explicitly, one turn at a time.\<close>

declare fanoutLoop.simps [simp del]
declare scanCameras.simps [simp del]
declare resetFlags.simps [simp del]
declare sendCameraHeaders.simps [simp del]
declare startAll.simps [simp del]

subsection \<open>Frame indices of the streaming callbacks\<close>

lemma color_cb_simps:
  "colorFrameIndex (colorStreamingCallback f cam) = colorFrameIndex cam + 1"
  "depthFrameIndex (colorStreamingCallback f cam) = depthFrameIndex cam"
  "depthFrames (colorStreamingCallback f cam) = depthFrames cam"
  "index (postedValue (colorFrames (colorStreamingCallback f cam))) = colorFrameIndex cam"
  "newValue (colorFrames (colorStreamingCallback f cam))"
  "colorHeaders (colorStreamingCallback f cam) = colorHeaders cam"
  "depthHeaders (colorStreamingCallback f cam) = depthHeaders cam"
  by (simp_all add: colorStreamingCallback_def storeBuffers_def postNewValue_def Let_def)

lemma depth_cb_simps:
  "depthFrameIndex (depthStreamingCallback f cam) = depthFrameIndex cam + 1"
  "colorFrameIndex (depthStreamingCallback f cam) = colorFrameIndex cam"
  "colorFrames (depthStreamingCallback f cam) = colorFrames cam"
  "index (postedValue (depthFrames (depthStreamingCallback f cam))) = depthFrameIndex cam"
  "newValue (depthFrames (depthStreamingCallback f cam))"
  "colorHeaders (depthStreamingCallback f cam) = colorHeaders cam"
  "depthHeaders (depthStreamingCallback f cam) = depthHeaders cam"
  by (simp_all add: depthStreamingCallback_def storeBuffers_def postNewValue_def Let_def)

lemma deliver_Nil: "deliver [] cam = cam"
  by (simp add: deliver_def)

lemma deliver_Cons: "deliver (e # es) cam = deliver es (streamingCallback e cam)"
  by (simp add: deliver_def)

lemma deliver_append: "deliver (es @ fs) cam = deliver fs (deliver es cam)"
  by (simp add: deliver_def)

lemma deliver_colorFrameIndex:
  "colorFrameIndex (deliver es cam) = colorFrameIndex cam + of_nat (countKind Color es)"
proof (induction es arbitrary: cam)
  case Nil
  show ?case by (simp add: deliver_Nil countKind_def)
next
  case (Cons e es)
  obtain k f where e: "e = (k, f)" by (cases e)
  show ?case
    by (cases k) (simp_all add: deliver_Cons Cons.IH e streamingCallback_def countKind_def
        color_cb_simps depth_cb_simps)
qed

lemma deliver_depthFrameIndex:
  "depthFrameIndex (deliver es cam) = depthFrameIndex cam + of_nat (countKind Depth es)"
proof (induction es arbitrary: cam)
  case Nil
  show ?case by (simp add: deliver_Nil countKind_def)
next
  case (Cons e es)
  obtain k f where e: "e = (k, f)" by (cases e)
  show ?case
    by (cases k) (simp_all add: deliver_Cons Cons.IH e streamingCallback_def countKind_def
        color_cb_simps depth_cb_simps)
qed

lemma newCameraState_indices:
  "colorFrameIndex (newCameraState dev) = 0" "depthFrameIndex (newCameraState dev) = 0"
  by (simp_all add: newCameraState_def storeBuffers_def)

lemma committedColor_index:
  "index (committedColor (es @ [(Color, f)]) cam)
     = colorFrameIndex cam + of_nat (countKind Color es)"
  by (simp add: committedColor_def deliver_append deliver_Cons deliver_Nil streamingCallback_def
      color_cb_simps deliver_colorFrameIndex)

lemma committedDepth_index:
  "index (committedDepth (es @ [(Depth, f)]) cam)
     = depthFrameIndex cam + of_nat (countKind Depth es)"
  by (simp add: committedDepth_def deliver_append deliver_Cons deliver_Nil streamingCallback_def
      depth_cb_simps deliver_depthFrameIndex)

lemma of_nat_u32_mono: "m < n \<Longrightarrow> n < 2 ^ 32 \<Longrightarrow> (of_nat m :: u32) < of_nat n"
  by (simp add: word_less_nat_alt unat_of_nat)

lemma countKind_replicate: "countKind k (replicate n (k, f)) = n"
  by (simp add: countKind_def)

text \<open>
  C6 (as the code has it). The frame committed by a callback carries the number of earlier
  callbacks of the same kind on that camera, modulo \<open>2^32\<close>: the index starts at 0 and grows
  by 1 per committed frame of that kind, whatever callbacks of the other kind run in
  between. A later committed frame of the same kind has a strictly larger index as long as
  fewer than \<open>2^32\<close> frames of that kind were committed before it.
\<close>

theorem frame_index_counts_commits:
  "index (committedColor (es @ [(Color, f)]) (newCameraState dev)) = of_nat (countKind Color es)
   \<and> index (committedDepth (es @ [(Depth, f)]) (newCameraState dev)) = of_nat (countKind Depth es)
   \<and> (countKind Color (es @ [(Color, f)] @ fs) < 2 ^ 32 \<longrightarrow>
        index (committedColor (es @ [(Color, f)]) (newCameraState dev))
          < index (committedColor (es @ [(Color, f)] @ fs @ [(Color, g)]) (newCameraState dev)))
   \<and> (countKind Depth (es @ [(Depth, f)] @ fs) < 2 ^ 32 \<longrightarrow>
        index (committedDepth (es @ [(Depth, f)]) (newCameraState dev))
          < index (committedDepth (es @ [(Depth, f)] @ fs @ [(Depth, g)]) (newCameraState dev)))"
proof -
  have c: "index (committedColor (xs @ [(Color, h)]) (newCameraState dev))
      = of_nat (countKind Color xs)" for xs h
    by (simp add: committedColor_index newCameraState_indices)
  have d: "index (committedDepth (xs @ [(Depth, h)]) (newCameraState dev))
      = of_nat (countKind Depth xs)" for xs h
    by (simp add: committedDepth_index newCameraState_indices)
  have c2: "index (committedColor (es @ [(Color, f)] @ fs @ [(Color, g)]) (newCameraState dev))
      = of_nat (countKind Color (es @ [(Color, f)] @ fs))"
    using c [of "es @ [(Color, f)] @ fs" g] by simp
  have d2: "index (committedDepth (es @ [(Depth, f)] @ fs @ [(Depth, g)]) (newCameraState dev))
      = of_nat (countKind Depth (es @ [(Depth, f)] @ fs))"
    using d [of "es @ [(Depth, f)] @ fs" g] by simp
  have lc: "countKind Color es < countKind Color (es @ [(Color, f)] @ fs)"
    by (simp add: countKind_def)
  have ld: "countKind Depth es < countKind Depth (es @ [(Depth, f)] @ fs)"
    by (simp add: countKind_def)
  show ?thesis
    unfolding c c2 d d2 using lc ld by (auto intro: of_nat_u32_mono)
qed

theorem frame_index_counts_commits_witness:
  "countKind Color ([(Depth, frame0)] @ [(Color, frame0)] @ [(Depth, frame0)]) < 2 ^ 32
   \<and> countKind Depth ([(Depth, frame0)] @ [(Depth, frame0)] @ [(Depth, frame0)]) < 2 ^ 32
   \<and> index (committedColor ([(Depth, frame0)] @ [(Color, frame0)]) (newCameraState device0)) = 0
   \<and> index (committedColor ([(Depth, frame0)] @ [(Color, frame0)] @ [(Depth, frame0)]
        @ [(Color, frame0)]) (newCameraState device0)) = 1
   \<and> index (committedDepth ([(Depth, frame0)] @ [(Depth, frame0)]) (newCameraState device0)) = 1
   \<and> index (committedDepth ([(Depth, frame0)] @ [(Depth, frame0)] @ [(Depth, frame0)]
        @ [(Depth, frame0)]) (newCameraState device0)) = 3"
  using frame_index_counts_commits [of "[(Depth, frame0)]" frame0 device0
      "[(Depth, frame0)]" frame0]
    committedColor_index [of "[(Depth, frame0), (Color, frame0), (Depth, frame0)]" frame0
      "newCameraState device0"]
    committedDepth_index [of "[(Depth, frame0), (Depth, frame0), (Depth, frame0)]" frame0
      "newCameraState device0"]
  by (simp add: countKind_def newCameraState_indices)

text \<open>
  C6 (as stated) fails where the 32-bit index wraps: the \<open>2^32\<close>-th color frame of a camera
  is committed with index \<open>2^32 - 1\<close>, the next one with index 0.
\<close>

theorem frame_index_wraps:
  "index (committedColor (replicate (2 ^ 32 - 1) (Color, frame0) @ [(Color, frame0)])
       (newCameraState device0)) = 0xFFFFFFFF
   \<and> index (committedColor (replicate (2 ^ 32) (Color, frame0) @ [(Color, frame0)])
       (newCameraState device0)) = 0
   \<and> \<not> index (committedColor (replicate (2 ^ 32 - 1) (Color, frame0) @ [(Color, frame0)])
       (newCameraState device0))
     < index (committedColor (replicate (2 ^ 32) (Color, frame0) @ [(Color, frame0)])
       (newCameraState device0))"
  by (simp add: committedColor_index newCameraState_indices countKind_replicate)

subsection \<open>The fan-out loop\<close>

lemma erase_length: "k < length xs \<Longrightarrow> length (erase k xs) = length xs - 1"
  by (simp add: erase_def)

lemma erase_take: "take k (erase k xs) = take k xs"
  by (simp add: erase_def min_def)

lemma erase_drop: "k < length xs \<Longrightarrow> drop k (erase k xs) = drop (Suc k) xs"
  by (simp add: erase_def)

text \<open>
  The loop invariant in functional form: when \<open>numClients\<close> is the length of the vector
  and \<open>j\<close> does not exceed it, the rest of the loop serves exactly the clients from position
  \<open>j\<close> on and leaves those before \<open>j\<close> as they are.
\<close>

lemma fanoutLoop_serveEachOnce:
  "unat n = length cs \<Longrightarrow> unat j \<le> length cs \<Longrightarrow>
   fanoutLoop m f d j n cs deleted =
     (case serveEachOnce m f d (drop (unat j) cs) of
        (st, kept, del) \<Rightarrow> (st, take (unat j) cs @ kept, deleted @ del))"
proof (induction "unat n - unat j" arbitrary: j n cs deleted rule: less_induct)
  case less
  show ?case
  proof (cases "j < n")
    case False
    with less.prems have "unat j = length cs" by unat_arith
    with False show ?thesis by (subst fanoutLoop.simps) simp
  next
    case True
    with less.prems have jl: "unat j < length cs" by unat_arith
    from True have sj: "unat (j + 1) = Suc (unat j)" by unat_arith
    from True have n1: "unat (n - 1) = unat n - 1" by unat_arith
    have dr: "drop (unat j) cs = cs ! unat j # drop (Suc (unat j)) cs"
      using jl by (simp add: Cons_nth_drop_Suc)
    obtain r c where sv: "serve m f d (cs ! unat j) = (r, c)"
      by (cases "serve m f d (cs ! unat j)")
    have removal: "fanoutLoop m f d j (n - 1) (erase (unat j) cs) (deleted @ [c]) =
        (case serveEachOnce m f d (drop (unat j) (erase (unat j) cs)) of
          (st, kept, del) \<Rightarrow>
            (st, take (unat j) (erase (unat j) cs) @ kept, (deleted @ [c]) @ del))"
    proof (rule less.hyps)
      show "unat (n - 1) - unat j < unat n - unat j" using less.prems jl n1 by simp
      show "unat (n - 1) = length (erase (unat j) cs)"
        using less.prems jl n1 by (simp add: erase_length)
      show "unat j \<le> length (erase (unat j) cs)" using jl by (simp add: erase_length)
    qed
    show ?thesis
    proof (cases r)
      case Written
      have "fanoutLoop m f d (j + 1) n (cs[unat j := c]) deleted =
        (case serveEachOnce m f d (drop (unat (j + 1)) (cs[unat j := c])) of
          (st, kept, del) \<Rightarrow> (st, take (unat (j + 1)) (cs[unat j := c]) @ kept, deleted @ del))"
      proof (rule less.hyps)
        show "unat n - unat (j + 1) < unat n - unat j" using less.prems jl sj by simp
        show "unat n = length (cs[unat j := c])" using less.prems by simp
        show "unat (j + 1) \<le> length (cs[unat j := c])" using jl sj by simp
      qed
      then show ?thesis
        using True jl sv Written
        by (subst fanoutLoop.simps) (simp add: dr sj take_Suc_conv_app_nth split: prod.splits)
    next
      case Requested
      with removal show ?thesis
        using True jl sv
        by (subst fanoutLoop.simps) (simp add: dr erase_take erase_drop split: prod.splits)
    next
      case (Raised e)
      show ?thesis
      proof (cases e)
        case RuntimeError
        with removal show ?thesis
          using True jl sv Raised
          by (subst fanoutLoop.simps) (simp add: dr erase_take erase_drop split: prod.splits)
      next
        case OtherException
        then show ?thesis
          using True jl sv Raised
          by (subst fanoutLoop.simps) (simp add: dr erase_def)
      qed
    qed
  qed
qed

lemma fanout_serveEachOnce:
  "length cs < 2 ^ 32 \<Longrightarrow>
   fanout m f d cs deleted =
     (case serveEachOnce m f d cs of (st, kept, del) \<Rightarrow> (st, kept, deleted @ del))"
  unfolding fanout_def
  by (subst fanoutLoop_serveEachOnce) (simp_all add: unat_of_nat)

lemma serveEachOnce_status:
  "fst (serveEachOnce m f d cs) = Completed \<or> fst (serveEachOnce m f d cs) = Rethrown"
  by (induction cs) (auto split: prod.splits served.splits exn.splits)

lemma serveEachOnce_no_spurious:
  "\<forall>c\<in>set cs. \<not> spurious m f d c \<Longrightarrow>
   serveEachOnce m f d cs = (Completed, keptOf m f d cs, removedOf m f d cs)"
  by (induction cs)
    (auto simp: spurious_def keptOf_def removedOf_def split: prod.splits served.splits exn.splits)

lemma serveEachOnce_spurious:
  "\<forall>c\<in>set pre. \<not> spurious m f d c \<Longrightarrow> spurious m f d c \<Longrightarrow>
   serveEachOnce m f d (pre @ c # rest) =
     (Rethrown, keptOf m f d pre @ rest, removedOf m f d pre @ [snd (serve m f d c)])"
  by (induction pre)
    (auto simp: spurious_def keptOf_def removedOf_def split: prod.splits served.splits exn.splits)

lemma serveEachOnce_Rethrown_iff:
  "fst (serveEachOnce m f d cs) = Rethrown \<longleftrightarrow> (\<exists>c\<in>set cs. spurious m f d c)"
  by (induction cs) (auto simp: spurious_def split: prod.splits served.splits exn.splits)


lemma serve_read_throws:
  "readable c = Inr True \<Longrightarrow> request c = Inl e \<Longrightarrow> serve m f d c = (Raised e, c)"
  by (simp add: serve_def waitForData_def readU32_def)


lemma serve_written:
  "readable c = Inr False \<Longrightarrow> writable c = None \<Longrightarrow>
   serve m f d c = (Written, c\<lparr>sent := sent c @ [U32 m, U32 f, Buffers d, Flushed]\<rparr>)"
  by (simp add: serve_def waitForData_def writeItem_def)

lemma serve_written_budget:
  "readable c = Inr False \<Longrightarrow> writable c = Some (k, e) \<Longrightarrow> 4 \<le> k \<Longrightarrow>
   serve m f d c = (Written, c\<lparr>writable := Some (k - 4, e),
                                 sent := sent c @ [U32 m, U32 f, Buffers d, Flushed]\<rparr>)"
  by (cases k rule: nat.exhaust;
      simp add: serve_def waitForData_def writeItem_def split: nat.splits)


lemmas example_clients =
  quietClient_def leavingClient_def brokenClient_def faultyClient_def quietPeer_def
  newTCPPipe_def

text \<open>
  C10. For a client vector of fewer than \<open>2^32\<close> entries, the loop with its 32-bit index
  \<open>j\<close> and its cached count \<open>numClients\<close>, both decremented on every removal, never reads
  the vector out of bounds, and it does what the index-free traversal does: it serves the
  clients one after the other, each exactly once, none skipped and none served twice, for as
  long as it runs (it stops early only when an exception that is not a
  \<^verbatim>\<open>std::runtime_error\<close> is rethrown).
\<close>

theorem fanout_in_bounds_each_client_once:
  assumes "length cs < 2 ^ 32"
  shows "fanout m f d cs deleted =
           (case serveEachOnce m f d cs of (st, kept, del) \<Rightarrow> (st, kept, deleted @ del))
         \<and> fst (fanout m f d cs deleted) \<noteq> OutOfBounds
         \<and> (fst (fanout m f d cs deleted) = Completed \<longrightarrow>
              fanout m f d cs deleted
                = (Completed, keptOf m f d cs, deleted @ removedOf m f d cs))"
proof -
  have eq: "fanout m f d cs deleted =
      (case serveEachOnce m f d cs of (st, kept, del) \<Rightarrow> (st, kept, deleted @ del))"
    using assms by (rule fanout_serveEachOnce)
  have st: "fst (fanout m f d cs deleted) = fst (serveEachOnce m f d cs)"
    by (simp add: eq split: prod.splits)
  have "fst (fanout m f d cs deleted) \<noteq> OutOfBounds"
    using serveEachOnce_status [of m f d cs] by (auto simp: st)
  moreover have "fanout m f d cs deleted
      = (Completed, keptOf m f d cs, deleted @ removedOf m f d cs)"
    if "fst (fanout m f d cs deleted) = Completed"
  proof -
    from that have "\<not> (\<exists>c\<in>set cs. spurious m f d c)"
      using serveEachOnce_Rethrown_iff [of m f d cs] by (simp add: st)
    then show ?thesis by (simp add: eq serveEachOnce_no_spurious)
  qed
  ultimately show ?thesis using eq by blast
qed

theorem fanout_in_bounds_each_client_once_witness:
  "length [leavingClient 0, quietClient 1, brokenClient 2, quietClient 3] < 2 ^ 32
   \<and> fanout 5 0 [9] [leavingClient 0, quietClient 1, brokenClient 2, quietClient 3] []
     = (Completed,
        [(quietClient 1)\<lparr>sent := [U32 5, U32 0, Buffers [9], Flushed]\<rparr>,
         (quietClient 3)\<lparr>sent := [U32 5, U32 0, Buffers [9], Flushed]\<rparr>],
        [(leavingClient 0)\<lparr>received := [0]\<rparr>,
         (brokenClient 2)\<lparr>writable := Some (0, RuntimeError), sent := [U32 5]\<rparr>])"
  using fanout_in_bounds_each_client_once
    [of "[leavingClient 0, quietClient 1, brokenClient 2, quietClient 3]" 5 0 "[9]" "[]"]
  by (simp add: example_clients serve_def waitForData_def readU32_def writeItem_def)

text \<open>
  C7 (as the code has it). What an exception raised while serving a client does depends on
  its class. If no client raises anything but \<^verbatim>\<open>std::runtime_error\<close>, the fan-out runs to
  completion: exactly the clients whose own service did not end with a completed write are
  removed, and every other client is kept with the frame written to it. An exception of any
  other class is rethrown: the fan-out stops at the first client that raises one, that
  client is removed too, and the clients behind it stay in the list without having been
  served.
\<close>

theorem fanout_exception_policy:
  assumes "length cs < 2 ^ 32"
  shows "((\<forall>c\<in>set cs. \<not> spurious m f d c) \<longrightarrow>
            fanout m f d cs deleted
              = (Completed, keptOf m f d cs, deleted @ removedOf m f d cs))
         \<and> (fst (fanout m f d cs deleted) = Rethrown \<longleftrightarrow> (\<exists>c\<in>set cs. spurious m f d c))
         \<and> (\<forall>pre c rest.
               cs = pre @ c # rest \<and> (\<forall>x\<in>set pre. \<not> spurious m f d x) \<and> spurious m f d c \<longrightarrow>
               fanout m f d cs deleted
                 = (Rethrown, keptOf m f d pre @ rest,
                    deleted @ removedOf m f d pre @ [snd (serve m f d c)]))"
proof -
  have eq: "fanout m f d cs deleted =
      (case serveEachOnce m f d cs of (st, kept, del) \<Rightarrow> (st, kept, deleted @ del))"
    using assms by (rule fanout_serveEachOnce)
  have a: "(\<forall>c\<in>set cs. \<not> spurious m f d c) \<longrightarrow>
      fanout m f d cs deleted = (Completed, keptOf m f d cs, deleted @ removedOf m f d cs)"
    by (simp add: eq serveEachOnce_no_spurious)
  have b: "fst (fanout m f d cs deleted) = Rethrown \<longleftrightarrow> (\<exists>c\<in>set cs. spurious m f d c)"
    using serveEachOnce_Rethrown_iff [of m f d cs]
    by (cases "serveEachOnce m f d cs") (simp add: eq)
  have c: "fanout m f d cs deleted
        = (Rethrown, keptOf m f d pre @ rest,
           deleted @ removedOf m f d pre @ [snd (serve m f d c)])"
    if "cs = pre @ c # rest" "\<forall>x\<in>set pre. \<not> spurious m f d x" "spurious m f d c"
    for pre c rest
  proof -
    have "serveEachOnce m f d cs =
        (Rethrown, keptOf m f d pre @ rest, removedOf m f d pre @ [snd (serve m f d c)])"
      unfolding that(1) using that(2,3) by (rule serveEachOnce_spurious)
    then show ?thesis by (simp add: eq)
  qed
  from a b c show ?thesis by blast
qed

theorem fanout_exception_policy_witness:
  "length [brokenClient 0, quietClient 4] < 2 ^ 32
   \<and> \<not> spurious 5 0 [9] (brokenClient 0) \<and> \<not> spurious 5 0 [9] (quietClient 4)
   \<and> fanout 5 0 [9] [brokenClient 0, quietClient 4] []
       = (Completed, [(quietClient 4)\<lparr>sent := [U32 5, U32 0, Buffers [9], Flushed]\<rparr>],
          [(brokenClient 0)\<lparr>writable := Some (0, RuntimeError), sent := [U32 5]\<rparr>])
   \<and> [quietClient 0, faultyClient 3, quietClient 2] = [quietClient 0] @ faultyClient 3 # [quietClient 2]
   \<and> \<not> spurious 5 0 [9] (quietClient 0) \<and> spurious 5 0 [9] (faultyClient 3)
   \<and> fanout 5 0 [9] [quietClient 0, faultyClient 3, quietClient 2] []
       = (Rethrown, [(quietClient 0)\<lparr>sent := [U32 5, U32 0, Buffers [9], Flushed]\<rparr>,
                     quietClient 2],
          [faultyClient 3])"
proof -
  have s0: "\<forall>c\<in>set [brokenClient 0, quietClient 4]. \<not> spurious 5 0 [9] c"
    by (simp add: spurious_def example_clients serve_def waitForData_def writeItem_def)
  have s1: "\<forall>x\<in>set [quietClient 0]. \<not> spurious 5 0 [9] x"
    by (simp add: spurious_def example_clients serve_def waitForData_def writeItem_def)
  have s2: "spurious 5 0 [9] (faultyClient 3)"
    by (simp add: spurious_def example_clients serve_def waitForData_def writeItem_def)
  have l0: "length [brokenClient 0, quietClient 4] < 2 ^ 32" by simp
  have l1: "length [quietClient 0, faultyClient 3, quietClient 2] < 2 ^ 32" by simp
  have k0: "keptOf 5 0 [9] [brokenClient 0, quietClient 4]
      = [(quietClient 4)\<lparr>sent := [U32 5, U32 0, Buffers [9], Flushed]\<rparr>]"
    by (simp add: keptOf_def example_clients serve_def waitForData_def writeItem_def)
  have r0: "removedOf 5 0 [9] [brokenClient 0, quietClient 4]
      = [(brokenClient 0)\<lparr>writable := Some (0, RuntimeError), sent := [U32 5]\<rparr>]"
    by (simp add: removedOf_def example_clients serve_def waitForData_def writeItem_def)
  have k1: "keptOf 5 0 [9] [quietClient 0]
      = [(quietClient 0)\<lparr>sent := [U32 5, U32 0, Buffers [9], Flushed]\<rparr>]"
    by (simp add: keptOf_def example_clients serve_def waitForData_def writeItem_def)
  have r1: "removedOf 5 0 [9] [quietClient 0] = []"
    by (simp add: removedOf_def example_clients serve_def waitForData_def writeItem_def)
  have v1: "snd (serve 5 0 [9] (faultyClient 3)) = faultyClient 3"
    by (simp add: example_clients serve_def waitForData_def writeItem_def)
  from fanout_exception_policy [OF l0, of 5 0 "[9]" "[]"] s0
  have A: "fanout 5 0 [9] [brokenClient 0, quietClient 4] []
       = (Completed, [(quietClient 4)\<lparr>sent := [U32 5, U32 0, Buffers [9], Flushed]\<rparr>],
          [(brokenClient 0)\<lparr>writable := Some (0, RuntimeError), sent := [U32 5]\<rparr>])"
    by (simp add: k0 r0)
  from fanout_exception_policy [OF l1, of 5 0 "[9]" "[]"] s1 s2
  have "fanout 5 0 [9] [quietClient 0, faultyClient 3, quietClient 2] []
       = (Rethrown, keptOf 5 0 [9] [quietClient 0] @ [quietClient 2],
          [] @ removedOf 5 0 [9] [quietClient 0] @ [snd (serve 5 0 [9] (faultyClient 3))])"
    by (metis append_Cons append_Nil)
  then have B: "fanout 5 0 [9] [quietClient 0, faultyClient 3, quietClient 2] []
       = (Rethrown, [(quietClient 0)\<lparr>sent := [U32 5, U32 0, Buffers [9], Flushed]\<rparr>,
                     quietClient 2],
          [faultyClient 3])"
    by (simp add: k1 r1 v1)
  from l0 s0 s1 s2 A B show ?thesis by simp
qed



subsection \<open>The camera scan\<close>

lemma colorBranch_idle:
  "unat i < length (cameraStates s) \<Longrightarrow> \<not> colorReady (cameraStates s ! unat i) \<Longrightarrow>
   colorBranch i found s = (Completed, found, s)"
  by (auto simp: colorBranch_def colorReady_def lockNewValue_def Let_def)

lemma depthBranch_idle:
  "unat i < length (cameraStates s) \<Longrightarrow> \<not> depthReady (cameraStates s ! unat i) \<Longrightarrow>
   depthBranch i found s = (Completed, found, s)"
  by (auto simp: depthBranch_def depthReady_def lockNewValue_def Let_def)

lemma scanCameras_found: "scanCameras i True s = (Completed, True, s)"
  by (subst scanCameras.simps) simp

lemma scanCameras_end: "\<not> i < numCameras s \<Longrightarrow> scanCameras i found s = (Completed, found, s)"
  by (subst scanCameras.simps) simp

lemma scanCameras_unfold:
  "i < numCameras s \<Longrightarrow>
   scanCameras i False s =
     (case cameraTurn i s of
        (Completed, found2, s2) \<Rightarrow> scanCameras (i + 1) found2 s2
      | (st, found2, s2) \<Rightarrow> (st, found2, s2))"
  by (subst scanCameras.simps) (simp add: cameraTurn_def split: prod.splits status.splits)

lemma colorBranch_cases:
  obtains (bad) "\<not> unat i < length (cameraStates s)" "colorBranch i found s = (OutOfBounds, found, s)"
  | (idle) "unat i < length (cameraStates s)" "\<not> colorReady (cameraStates s ! unat i)"
       "colorBranch i found s = (Completed, found, s)"
  | (sent) cs del where "unat i < length (cameraStates s)" "colorReady (cameraStates s ! unat i)"
       "fanout (metaFrameIndex s) (i * 2 + 0) (data (postedValue (colorFrames (cameraStates s ! unat i))))
          (clients s) (deletedSockets s) = (Completed, cs, del)"
       "colorBranch i found s = (Completed, True,
          s\<lparr>cameraStates := (cameraStates s)[unat i := (cameraStates s ! unat i)
               \<lparr>colorFrames := (colorFrames (cameraStates s ! unat i))
                   \<lparr>lockedValue := postedValue (colorFrames (cameraStates s ! unat i)), newValue := False\<rparr>,
                hasSentColorFrame := True\<rparr>],
            clients := cs, deletedSockets := del,
            numMissingColorFrames := numMissingColorFrames s - 1\<rparr>)"
  | (failed) st cs del where "unat i < length (cameraStates s)" "colorReady (cameraStates s ! unat i)"
       "fanout (metaFrameIndex s) (i * 2 + 0) (data (postedValue (colorFrames (cameraStates s ! unat i))))
          (clients s) (deletedSockets s) = (st, cs, del)" "st \<noteq> Completed"
       "colorBranch i found s = (st, found,
          s\<lparr>cameraStates := (cameraStates s)[unat i := (cameraStates s ! unat i)
               \<lparr>colorFrames := (colorFrames (cameraStates s ! unat i))
                   \<lparr>lockedValue := postedValue (colorFrames (cameraStates s ! unat i)), newValue := False\<rparr>\<rparr>],
            clients := cs, deletedSockets := del\<rparr>)"
proof (cases "unat i < length (cameraStates s)")
  case False
  then show ?thesis using bad by (simp add: colorBranch_def)
next
  case inb: True
  show ?thesis
  proof (cases "colorReady (cameraStates s ! unat i)")
    case False
    then show ?thesis using idle inb colorBranch_idle by blast
  next
    case True
    obtain st cs del where fo: "fanout (metaFrameIndex s) (i * 2 + 0)
        (data (postedValue (colorFrames (cameraStates s ! unat i)))) (clients s) (deletedSockets s) = (st, cs, del)"
      by (metis prod_cases3)
    show ?thesis
    proof (cases "st = Completed")
      case c: True
      show ?thesis
        apply (rule sent [OF inb True fo [unfolded c]])
        using inb True fo c
        by (simp add: colorBranch_def colorReady_def lockNewValue_def getLockedValue_def Let_def)
    next
      case c: False
      show ?thesis
        apply (rule failed [OF inb True fo c])
        using inb True fo c
        by (cases st; simp add: colorBranch_def colorReady_def lockNewValue_def getLockedValue_def Let_def)
    qed
  qed
qed

lemma depthBranch_cases:
  obtains (bad) "\<not> unat i < length (cameraStates s)" "depthBranch i found s = (OutOfBounds, found, s)"
  | (idle) "unat i < length (cameraStates s)" "\<not> depthReady (cameraStates s ! unat i)"
       "depthBranch i found s = (Completed, found, s)"
  | (sent) cs del where "unat i < length (cameraStates s)" "depthReady (cameraStates s ! unat i)"
       "fanout (metaFrameIndex s) (i * 2 + 1) (data (postedValue (depthFrames (cameraStates s ! unat i))))
          (clients s) (deletedSockets s) = (Completed, cs, del)"
       "depthBranch i found s = (Completed, True,
          s\<lparr>cameraStates := (cameraStates s)[unat i := (cameraStates s ! unat i)
               \<lparr>depthFrames := (depthFrames (cameraStates s ! unat i))
                   \<lparr>lockedValue := postedValue (depthFrames (cameraStates s ! unat i)), newValue := False\<rparr>,
                hasSentDepthFrame := True\<rparr>],
            clients := cs, deletedSockets := del,
            numMissingDepthFrames := numMissingDepthFrames s - 1\<rparr>)"
  | (failed) st cs del where "unat i < length (cameraStates s)" "depthReady (cameraStates s ! unat i)"
       "fanout (metaFrameIndex s) (i * 2 + 1) (data (postedValue (depthFrames (cameraStates s ! unat i))))
          (clients s) (deletedSockets s) = (st, cs, del)" "st \<noteq> Completed"
       "depthBranch i found s = (st, found,
          s\<lparr>cameraStates := (cameraStates s)[unat i := (cameraStates s ! unat i)
               \<lparr>depthFrames := (depthFrames (cameraStates s ! unat i))
                   \<lparr>lockedValue := postedValue (depthFrames (cameraStates s ! unat i)), newValue := False\<rparr>\<rparr>],
            clients := cs, deletedSockets := del\<rparr>)"
proof (cases "unat i < length (cameraStates s)")
  case False
  then show ?thesis using bad by (simp add: depthBranch_def)
next
  case inb: True
  show ?thesis
  proof (cases "depthReady (cameraStates s ! unat i)")
    case False
    then show ?thesis using idle inb depthBranch_idle by blast
  next
    case True
    obtain st cs del where fo: "fanout (metaFrameIndex s) (i * 2 + 1)
        (data (postedValue (depthFrames (cameraStates s ! unat i)))) (clients s) (deletedSockets s) = (st, cs, del)"
      by (metis prod_cases3)
    show ?thesis
    proof (cases "st = Completed")
      case c: True
      show ?thesis
        apply (rule sent [OF inb True fo [unfolded c]])
        using inb True fo c
        by (simp add: depthBranch_def depthReady_def lockNewValue_def getLockedValue_def Let_def)
    next
      case c: False
      show ?thesis
        apply (rule failed [OF inb True fo c])
        using inb True fo c
        by (cases st; simp add: depthBranch_def depthReady_def lockNewValue_def getLockedValue_def Let_def)
    qed
  qed
qed

lemma colorBranch_cameras:
  "\<exists>c. cameraStates (snd (snd (colorBranch i found s))) = (cameraStates s)[unat i := c]"
  by (cases i found s rule: colorBranch_cases) (auto intro: exI [of _ "cameraStates s ! unat i"])

lemma depthBranch_cameras:
  "\<exists>c. cameraStates (snd (snd (depthBranch i found s))) = (cameraStates s)[unat i := c]"
  by (cases i found s rule: depthBranch_cases) (auto intro: exI [of _ "cameraStates s ! unat i"])

lemma colorBranch_not_found: "colorBranch i False s = (Completed, False, s1) \<Longrightarrow> s1 = s"
  by (cases i False s rule: colorBranch_cases) auto

lemma depthBranch_not_found: "depthBranch i False s = (Completed, False, s1) \<Longrightarrow> s1 = s"
  by (cases i False s rule: depthBranch_cases) auto

lemma depthBranch_keeps_found: "depthBranch i True s = (st, f, s1) \<Longrightarrow> f"
  by (cases i True s rule: depthBranch_cases) auto

lemma colorBranch_keeps_found: "colorBranch i True s = (st, f, s1) \<Longrightarrow> f"
  by (cases i True s rule: colorBranch_cases) auto

lemma cameraTurn_cameras:
  "\<exists>c. cameraStates (snd (snd (cameraTurn i s))) = (cameraStates s)[unat i := c]"
proof -
  obtain st f1 s1 where cb: "colorBranch i False s = (st, f1, s1)" by (metis prod_cases3)
  obtain c1 where c1: "cameraStates s1 = (cameraStates s)[unat i := c1]"
    using colorBranch_cameras [of i False s] cb by auto
  obtain c2 where c2: "cameraStates (snd (snd (depthBranch i f1 s1))) = (cameraStates s1)[unat i := c2]"
    using depthBranch_cameras [of i f1 s1] by auto
  show ?thesis
    using cb c1 c2 by (cases st) (auto simp: cameraTurn_def)
qed

lemma cameraTurn_not_found: "cameraTurn i s = (Completed, False, s2) \<Longrightarrow> s2 = s"
proof -
  assume a: "cameraTurn i s = (Completed, False, s2)"
  obtain st f1 s1 where cb: "colorBranch i False s = (st, f1, s1)" by (metis prod_cases3)
  with a have st: "st = Completed" and db: "depthBranch i f1 s1 = (Completed, False, s2)"
    by (cases st; simp add: cameraTurn_def)+
  from db have "\<not> f1" using depthBranch_keeps_found by (cases f1) auto
  with cb st have "s1 = s" using colorBranch_not_found by auto
  with db \<open>\<not> f1\<close> show ?thesis using depthBranch_not_found by auto
qed

lemma scanCameras_one_camera:
  "\<exists>k c. cameraStates (snd (snd (scanCameras i False s))) = (cameraStates s)[k := c]"
proof (induction "2 ^ 32 - unat i" arbitrary: i rule: less_induct)
  case less
  show ?case
  proof (cases "i < numCameras s")
    case False
    then show ?thesis
      by (simp add: scanCameras_end) (metis list_update_id)
  next
    case True
    obtain st f2 s2 where ct: "cameraTurn i s = (st, f2, s2)" by (metis prod_cases3)
    obtain c where c: "cameraStates s2 = (cameraStates s)[unat i := c]"
      using cameraTurn_cameras [of i s] ct by auto
    show ?thesis
    proof (cases "st = Completed \<and> \<not> f2")
      case True
      with ct have "s2 = s" using cameraTurn_not_found by auto
      moreover have "2 ^ 32 - unat (i + 1) < (2 ^ 32 :: nat) - unat i"
      proof -
        from \<open>i < numCameras s\<close> have "unat (i + 1) = Suc (unat i)" by unat_arith
        moreover have "unat i < 2 ^ 32" using unsigned_less [of i, where ?'a = nat] by simp
        ultimately show ?thesis by simp
      qed
      ultimately show ?thesis
        using less.hyps [of "i + 1"] \<open>i < numCameras s\<close> ct True
        by (simp add: scanCameras_unfold)
    next
      case False
      then have "scanCameras i False s = (st, f2, s2)"
        using \<open>i < numCameras s\<close> ct
        by (cases st; cases f2; simp add: scanCameras_unfold scanCameras_found)
      with c show ?thesis by auto
    qed
  qed
qed

lemma fanout_allQuiet:
  assumes "length cs < 2 ^ 32" "allQuiet cs"
  shows "fanout m f d cs del = (Completed, map (receive m f d) cs, del)"
proof -
  have sv: "serve m f d c = (Written, receive m f d c)" if "c \<in> set cs" for c
    using that assms(2) by (simp add: allQuiet_def serve_written receive_def)
  then have ns: "\<forall>c\<in>set cs. \<not> spurious m f d c" by (simp add: spurious_def)
  have k: "keptOf m f d cs = map (receive m f d) cs"
    unfolding keptOf_def using sv by (induction cs) auto
  have r: "removedOf m f d cs = []"
    unfolding removedOf_def using sv by (induction cs) auto
  show ?thesis
    by (simp add: fanout_serveEachOnce [OF assms(1)] serveEachOnce_no_spurious [OF ns] k r)
qed

lemma allQuiet_receive: "allQuiet cs \<Longrightarrow> allQuiet (map (receive m f d) cs)"
  by (simp add: allQuiet_def receive_def)

lemma cameraTurn_idle:
  "unat i < length (cameraStates s) \<Longrightarrow> \<not> colorReady (cameraStates s ! unat i) \<Longrightarrow>
   \<not> depthReady (cameraStates s ! unat i) \<Longrightarrow> cameraTurn i s = (Completed, False, s)"
  by (simp add: cameraTurn_def colorBranch_idle depthBranch_idle)

lemma scanCameras_skip:
  assumes "unat i + n = unat k" "k < numCameras s" "unat (numCameras s) \<le> length (cameraStates s)"
    "\<forall>x. unat i \<le> x \<and> x < unat k \<longrightarrow>
       \<not> colorReady (cameraStates s ! x) \<and> \<not> depthReady (cameraStates s ! x)"
  shows "scanCameras i False s = scanCameras k False s"
  using assms
proof (induction n arbitrary: i)
  case 0
  then have "i = k" by (simp add: word_unat_eq_iff)
  then show ?case by simp
next
  case (Suc n)
  from Suc.prems have ik: "unat i < unat k" by simp
  with Suc.prems have iN: "i < numCameras s" by unat_arith
  then have s1: "unat (i + 1) = Suc (unat i)" by unat_arith
  from iN Suc.prems have inb: "unat i < length (cameraStates s)" by unat_arith
  have "cameraTurn i s = (Completed, False, s)"
    using Suc.prems(4) ik inb by (intro cameraTurn_idle) auto
  then have "scanCameras i False s = scanCameras (i + 1) False s"
    using iN by (simp add: scanCameras_unfold)
  also have "\<dots> = scanCameras k False s"
    using Suc.prems s1 by (intro Suc.IH) auto
  finally show ?case .
qed

lemma cameraTurn_ready_found:
  assumes "colorReady (cameraStates s ! unat k) \<or> depthReady (cameraStates s ! unat k)"
    and "cameraTurn k s = (Completed, f2, s2)"
  shows "f2"
proof (rule ccontr)
  assume "\<not> f2"
  with assms(2) have ct: "cameraTurn k s = (Completed, False, s2)" by simp
  obtain st f1 s1 where cb: "colorBranch k False s = (st, f1, s1)" by (metis prod_cases3)
  with ct have st: "st = Completed" and db: "depthBranch k f1 s1 = (Completed, False, s2)"
    by (cases st; simp add: cameraTurn_def)+
  from db have nf1: "\<not> f1" using depthBranch_keeps_found by (cases f1) auto
  with cb st have s1: "s1 = s" using colorBranch_not_found by auto
  have "\<not> colorReady (cameraStates s ! unat k)"
    using cb st nf1 by (cases k False s rule: colorBranch_cases) auto
  moreover have "\<not> depthReady (cameraStates s ! unat k)"
    using db nf1 s1 by (cases k False s rule: depthBranch_cases) auto
  ultimately show False using assms(1) by simp
qed

lemma scanCameras_lowest_ready:
  assumes "k < numCameras s" "unat (numCameras s) \<le> length (cameraStates s)"
    "\<forall>x < unat k. \<not> colorReady (cameraStates s ! x) \<and> \<not> depthReady (cameraStates s ! x)"
    "colorReady (cameraStates s ! unat k) \<or> depthReady (cameraStates s ! unat k)"
  shows "scanCameras 0 False s = cameraTurn k s"
proof -
  have "scanCameras 0 False s = scanCameras k False s"
    using assms(1-3) by (intro scanCameras_skip [where n = "unat k"]) auto
  also have "\<dots> = cameraTurn k s"
  proof -
    obtain st f2 s2 where ct: "cameraTurn k s = (st, f2, s2)" by (metis prod_cases3)
    show ?thesis
    proof (cases "st = Completed")
      case True
      with ct assms(4) have f2 using cameraTurn_ready_found by blast
      with True ct assms(1) show ?thesis by (simp add: scanCameras_unfold scanCameras_found)
    next
      case False
      with ct assms(1) show ?thesis by (cases st; simp add: scanCameras_unfold)
    qed
  qed
  finally show ?thesis .
qed

lemma scanCameras_none_ready:
  assumes "unat (numCameras s) \<le> length (cameraStates s)"
    "\<forall>x < unat (numCameras s). \<not> colorReady (cameraStates s ! x) \<and> \<not> depthReady (cameraStates s ! x)"
  shows "scanCameras 0 False s = (Completed, False, s)"
proof (cases "numCameras s = 0")
  case True
  then show ?thesis by (simp add: scanCameras_end)
next
  case False
  define k where "k = numCameras s - 1"
  have k: "k < numCameras s" "unat k = unat (numCameras s) - 1"
    using False unfolding k_def by unat_arith+
  have "scanCameras 0 False s = scanCameras k False s"
    using assms k by (intro scanCameras_skip [where n = "unat k"]) auto
  also have "\<dots> = scanCameras (k + 1) False s"
  proof -
    have pos: "0 < unat (numCameras s)" using False by (simp add: unat_gt_0)
    have "cameraTurn k s = (Completed, False, s)"
      using assms k pos by (intro cameraTurn_idle) auto
    then show ?thesis using k by (simp add: scanCameras_unfold)
  qed
  also have "\<dots> = (Completed, False, s)"
    by (simp add: k_def scanCameras_end)
  finally show ?thesis .
qed

lemma scanCameras_nothing_or_one_turn:
  "scanCameras i False s = (Completed, False, s)
   \<or> (\<exists>k. k < numCameras s \<and> scanCameras i False s = cameraTurn k s)"
proof (induction "2 ^ 32 - unat i" arbitrary: i rule: less_induct)
  case less
  show ?case
  proof (cases "i < numCameras s")
    case False
    then show ?thesis by (simp add: scanCameras_end)
  next
    case True
    obtain st f2 s2 where ct: "cameraTurn i s = (st, f2, s2)" by (metis prod_cases3)
    show ?thesis
    proof (cases "st = Completed \<and> \<not> f2")
      case c: True
      with ct have "s2 = s" using cameraTurn_not_found by auto
      moreover have "2 ^ 32 - unat (i + 1) < (2 ^ 32 :: nat) - unat i"
      proof -
        from True have "unat (i + 1) = Suc (unat i)" by unat_arith
        moreover have "unat i < 2 ^ 32" using unsigned_less [of i, where ?'a = nat] by simp
        ultimately show ?thesis by simp
      qed
      ultimately show ?thesis
        using less.hyps [of "i + 1"] True ct c by (simp add: scanCameras_unfold)
    next
      case False
      then have "scanCameras i False s = cameraTurn i s"
        using True ct by (cases st; cases f2; simp add: scanCameras_unfold scanCameras_found)
      with True show ?thesis by blast
    qed
  qed
qed

lemma depthBranch_unguarded:
  "fst (depthBranch i True s) = fst (depthBranch i False s)
   \<and> snd (snd (depthBranch i True s)) = snd (snd (depthBranch i False s))"
  by (cases i True s rule: depthBranch_cases; cases i False s rule: depthBranch_cases) auto

lemma cameraTurn_both:
  assumes inb: "unat k < length (cameraStates s)"
    and rdy: "colorReady (cameraStates s ! unat k)" "depthReady (cameraStates s ! unat k)"
    and q: "allQuiet (clients s)" "length (clients s) < 2 ^ 32"
  shows "fst (cameraTurn k s) = Completed
    \<and> clients (snd (snd (cameraTurn k s))) =
        map (\<lambda>c. receive (metaFrameIndex s) (k * 2 + 1)
                    (data (postedValue (depthFrames (cameraStates s ! unat k))))
                    (receive (metaFrameIndex s) (k * 2 + 0)
                       (data (postedValue (colorFrames (cameraStates s ! unat k)))) c))
          (clients s)
    \<and> hasSentColorFrame (cameraStates (snd (snd (cameraTurn k s))) ! unat k)
    \<and> hasSentDepthFrame (cameraStates (snd (snd (cameraTurn k s))) ! unat k)"
proof -
  let ?cam = "cameraStates s ! unat k"
  let ?m = "metaFrameIndex s"
  let ?cd = "data (postedValue (colorFrames ?cam))"
  let ?dd = "data (postedValue (depthFrames ?cam))"
  define s1 where "s1 = s\<lparr>cameraStates := (cameraStates s)[unat k := ?cam
               \<lparr>colorFrames := (colorFrames ?cam)
                   \<lparr>lockedValue := postedValue (colorFrames ?cam), newValue := False\<rparr>,
                hasSentColorFrame := True\<rparr>],
            clients := map (receive ?m (k * 2 + 0) ?cd) (clients s), deletedSockets := deletedSockets s,
            numMissingColorFrames := numMissingColorFrames s - 1\<rparr>"
  have cb: "colorBranch k False s = (Completed, True, s1)"
    using fanout_allQuiet [OF q(2,1), of ?m "k * 2 + 0" ?cd "deletedSockets s"] inb rdy(1)
    by (cases k False s rule: colorBranch_cases) (auto simp: s1_def)
  have inb1: "unat k < length (cameraStates s1)" using inb by (simp add: s1_def)
  have cam1: "cameraStates s1 ! unat k = ?cam
               \<lparr>colorFrames := (colorFrames ?cam)
                   \<lparr>lockedValue := postedValue (colorFrames ?cam), newValue := False\<rparr>,
                hasSentColorFrame := True\<rparr>"
    using inb by (simp add: s1_def)
  have rdy1: "depthReady (cameraStates s1 ! unat k)"
    using rdy(2) by (simp add: cam1 depthReady_def)
  have q1: "allQuiet (clients s1)" "length (clients s1) < 2 ^ 32"
    using q by (simp_all add: s1_def allQuiet_receive)
  have dd1: "data (postedValue (depthFrames (cameraStates s1 ! unat k))) = ?dd"
    by (simp add: cam1)
  have db: "fst (depthBranch k True s1) = Completed
      \<and> clients (snd (snd (depthBranch k True s1))) = map (receive ?m (k * 2 + 1) ?dd) (clients s1)
      \<and> hasSentColorFrame (cameraStates (snd (snd (depthBranch k True s1))) ! unat k)
      \<and> hasSentDepthFrame (cameraStates (snd (snd (depthBranch k True s1))) ! unat k)"
    using fanout_allQuiet [OF q1(2,1), of "metaFrameIndex s1" "k * 2 + 1" ?dd "deletedSockets s1"] inb1 rdy1
    by (cases k True s1 rule: depthBranch_cases) (auto simp: dd1 cam1, auto simp: s1_def)
  have ct: "cameraTurn k s = depthBranch k True s1"
    by (simp add: cameraTurn_def cb)
  show ?thesis
    unfolding ct using db by (simp add: s1_def)
qed

text \<open>
  C9. A scan that is entered with \<open>foundFrame\<close> set leaves the camera loop at once. A scan
  from camera 0 either finds nothing and changes nothing, or it is exactly the turn of one
  camera \<open>k\<close>: the loop does not go on to camera \<open>k + 1\<close>. The streaming thread's next
  scan starts at camera 0 again. The depth branch does the same whether or not
  \<open>foundFrame\<close> is already set, and when the lowest-indexed ready camera has both a color
  and a depth frame ready, a single scan writes both to every (quiet) client, color first,
  and marks both as sent.
\<close>

theorem scan_serves_at_most_one_camera:
  "scanCameras i True s = (Completed, True, s)
   \<and> (scanCameras 0 False s = (Completed, False, s)
        \<or> (\<exists>k. k < numCameras s \<and> scanCameras 0 False s = cameraTurn k s))
   \<and> (numMissingDepthFrames s > 0 \<or> numMissingColorFrames s > 0 \<longrightarrow>
        streamingThreadStep s =
          (case scanCameras 0 False s of
             (Completed, foundFrame, s1) \<Rightarrow> s1
           | (st, foundFrame, s1) \<Rightarrow> s1\<lparr>streamingThread := Ended st\<rparr>))
   \<and> fst (depthBranch i True s) = fst (depthBranch i False s)
   \<and> snd (snd (depthBranch i True s)) = snd (snd (depthBranch i False s))
   \<and> (k < numCameras s \<and> unat (numCameras s) \<le> length (cameraStates s)
        \<and> (\<forall>x < unat k. \<not> colorReady (cameraStates s ! x) \<and> \<not> depthReady (cameraStates s ! x))
        \<and> colorReady (cameraStates s ! unat k) \<and> depthReady (cameraStates s ! unat k)
        \<and> allQuiet (clients s) \<and> length (clients s) < 2 ^ 32 \<longrightarrow>
        fst (scanCameras 0 False s) = Completed
        \<and> clients (snd (snd (scanCameras 0 False s))) =
            map (\<lambda>c. receive (metaFrameIndex s) (k * 2 + 1)
                        (data (postedValue (depthFrames (cameraStates s ! unat k))))
                        (receive (metaFrameIndex s) (k * 2 + 0)
                           (data (postedValue (colorFrames (cameraStates s ! unat k)))) c))
              (clients s)
        \<and> hasSentColorFrame (cameraStates (snd (snd (scanCameras 0 False s))) ! unat k)
        \<and> hasSentDepthFrame (cameraStates (snd (snd (scanCameras 0 False s))) ! unat k))"
proof -
  have a: "scanCameras i True s = (Completed, True, s)" by (rule scanCameras_found)
  have b: "scanCameras 0 False s = (Completed, False, s)
        \<or> (\<exists>k. k < numCameras s \<and> scanCameras 0 False s = cameraTurn k s)"
    by (rule scanCameras_nothing_or_one_turn)
  have c: "numMissingDepthFrames s > 0 \<or> numMissingColorFrames s > 0 \<longrightarrow>
        streamingThreadStep s =
          (case scanCameras 0 False s of
             (Completed, foundFrame, s1) \<Rightarrow> s1
           | (st, foundFrame, s1) \<Rightarrow> s1\<lparr>streamingThread := Ended st\<rparr>)"
    by (simp add: streamingThreadStep_def)
  have d: "fst (depthBranch i True s) = fst (depthBranch i False s)
      \<and> snd (snd (depthBranch i True s)) = snd (snd (depthBranch i False s))"
    by (rule depthBranch_unguarded)
  have e: "fst (scanCameras 0 False s) = Completed
        \<and> clients (snd (snd (scanCameras 0 False s))) =
            map (\<lambda>c. receive (metaFrameIndex s) (k * 2 + 1)
                        (data (postedValue (depthFrames (cameraStates s ! unat k))))
                        (receive (metaFrameIndex s) (k * 2 + 0)
                           (data (postedValue (colorFrames (cameraStates s ! unat k)))) c))
              (clients s)
        \<and> hasSentColorFrame (cameraStates (snd (snd (scanCameras 0 False s))) ! unat k)
        \<and> hasSentDepthFrame (cameraStates (snd (snd (scanCameras 0 False s))) ! unat k)"
    if h: "k < numCameras s" "unat (numCameras s) \<le> length (cameraStates s)"
      "\<forall>x < unat k. \<not> colorReady (cameraStates s ! x) \<and> \<not> depthReady (cameraStates s ! x)"
      "colorReady (cameraStates s ! unat k)" "depthReady (cameraStates s ! unat k)"
      "allQuiet (clients s)" "length (clients s) < 2 ^ 32"
  proof -
    have "scanCameras 0 False s = cameraTurn k s"
      using h(1-4) by (intro scanCameras_lowest_ready) auto
    moreover have "unat k < length (cameraStates s)" using h(1,2) by unat_arith
    ultimately show ?thesis using cameraTurn_both [OF _ h(4-7)] by simp
  qed
  from a b c d e show ?thesis by blast
qed

theorem scan_serves_at_most_one_camera_witness:
  "(0 :: u32) < numCameras bothReadyServer
   \<and> unat (numCameras bothReadyServer) \<le> length (cameraStates bothReadyServer)
   \<and> colorReady (cameraStates bothReadyServer ! unat (0 :: u32))
   \<and> depthReady (cameraStates bothReadyServer ! unat (0 :: u32))
   \<and> map readable (clients bothReadyServer) = [Inr False]
   \<and> map writable (clients bothReadyServer) = [None]
   \<and> length (clients bothReadyServer) < 2 ^ 32
   \<and> (numMissingDepthFrames bothReadyServer > 0 \<or> numMissingColorFrames bothReadyServer > 0)
   \<and> fst (scanCameras 0 False bothReadyServer) = Completed
   \<and> hasSentColorFrame
        (cameraStates (snd (snd (scanCameras 0 False bothReadyServer))) ! unat (0 :: u32))
   \<and> hasSentDepthFrame
        (cameraStates (snd (snd (scanCameras 0 False bothReadyServer))) ! unat (0 :: u32))
   \<and> streamingThreadStep bothReadyServer =
         (case scanCameras 0 False bothReadyServer of
            (Completed, foundFrame, s1) \<Rightarrow> s1
          | (st, foundFrame, s1) \<Rightarrow> s1\<lparr>streamingThread := Ended st\<rparr>)"
proof -
  have h1: "(0 :: u32) < numCameras bothReadyServer" by code_simp
  have h2: "unat (numCameras bothReadyServer) \<le> length (cameraStates bothReadyServer)"
    by code_simp
  have h3: "\<forall>x < unat (0 :: u32). \<not> colorReady (cameraStates bothReadyServer ! x)
          \<and> \<not> depthReady (cameraStates bothReadyServer ! x)" by simp
  have h4: "colorReady (cameraStates bothReadyServer ! unat (0 :: u32))" by code_simp
  have h5: "depthReady (cameraStates bothReadyServer ! unat (0 :: u32))" by code_simp
  have h6: "allQuiet (clients bothReadyServer)" by code_simp
  have "length (clients bothReadyServer) = 1" by code_simp
  then have h7: "length (clients bothReadyServer) < 2 ^ 32" by simp
  have h8: "numMissingDepthFrames bothReadyServer > 0 \<or> numMissingColorFrames bothReadyServer > 0"
    by code_simp
  have h9: "map readable (clients bothReadyServer) = [Inr False]"
    "map writable (clients bothReadyServer) = [None]" by code_simp+
  from scan_serves_at_most_one_camera [of 0 bothReadyServer 0] h1 h2 h3 h4 h5 h6 h7 h8 h9
  show ?thesis by blast
qed

text \<open>
  C1 (as the code has it). A scan examines the cameras in index order and serves the
  lowest-indexed camera that is ready, and only that one: the scan is that camera's turn,
  and every other camera, ready or not, is left as it was. Which camera's frames are written
  first within a meta-frame therefore depends on when the frames are committed.
\<close>

theorem scan_serves_lowest_ready_camera:
  assumes "k < numCameras s" and "unat (numCameras s) \<le> length (cameraStates s)"
    and "\<forall>x < unat k. \<not> colorReady (cameraStates s ! x) \<and> \<not> depthReady (cameraStates s ! x)"
    and "colorReady (cameraStates s ! unat k) \<or> depthReady (cameraStates s ! unat k)"
  shows "scanCameras 0 False s = cameraTurn k s
       \<and> length (cameraStates (snd (snd (scanCameras 0 False s)))) = length (cameraStates s)
       \<and> (\<forall>x. x \<noteq> unat k \<longrightarrow>
             cameraStates (snd (snd (scanCameras 0 False s))) ! x = cameraStates s ! x)"
proof -
  have eq: "scanCameras 0 False s = cameraTurn k s"
    using assms by (rule scanCameras_lowest_ready)
  obtain c where c: "cameraStates (snd (snd (cameraTurn k s))) = (cameraStates s)[unat k := c]"
    using cameraTurn_cameras by blast
  show ?thesis by (simp add: eq c)
qed

theorem scan_serves_lowest_ready_camera_witness:
  "(1 :: u32) < numCameras cameraOneFirstServer
   \<and> unat (numCameras cameraOneFirstServer) \<le> length (cameraStates cameraOneFirstServer)
   \<and> \<not> colorReady (cameraStates cameraOneFirstServer ! 0)
   \<and> \<not> depthReady (cameraStates cameraOneFirstServer ! 0)
   \<and> colorReady (cameraStates cameraOneFirstServer ! unat (1 :: u32))
   \<and> scanCameras 0 False cameraOneFirstServer = cameraTurn 1 cameraOneFirstServer
   \<and> cameraStates (snd (snd (scanCameras 0 False cameraOneFirstServer))) ! 0
       = cameraStates cameraOneFirstServer ! 0"
proof -
  have h1: "(1 :: u32) < numCameras cameraOneFirstServer" by code_simp
  have h2: "unat (numCameras cameraOneFirstServer) \<le> length (cameraStates cameraOneFirstServer)"
    by code_simp
  have n0: "\<not> colorReady (cameraStates cameraOneFirstServer ! 0)
      \<and> \<not> depthReady (cameraStates cameraOneFirstServer ! 0)" by code_simp
  have h3: "\<forall>x < unat (1 :: u32). \<not> colorReady (cameraStates cameraOneFirstServer ! x)
          \<and> \<not> depthReady (cameraStates cameraOneFirstServer ! x)"
    using n0 by simp
  have c1: "colorReady (cameraStates cameraOneFirstServer ! unat (1 :: u32))" by code_simp
  then have h4: "colorReady (cameraStates cameraOneFirstServer ! unat (1 :: u32))
        \<or> depthReady (cameraStates cameraOneFirstServer ! unat (1 :: u32))" by simp
  have ne: "0 \<noteq> unat (1 :: u32)" by simp
  from scan_serves_lowest_ready_camera [OF h1 h2 h3 h4] ne
  have "scanCameras 0 False cameraOneFirstServer = cameraTurn 1 cameraOneFirstServer"
    and "cameraStates (snd (snd (scanCameras 0 False cameraOneFirstServer))) ! 0
       = cameraStates cameraOneFirstServer ! 0"
    by blast+
  with h1 h2 n0 c1 show ?thesis by blast
qed

text \<open>
  C1 (as stated) fails. Two cameras, one client; camera 1 commits a color frame, the
  streaming thread scans, camera 0 commits a color frame, the streaming thread scans again.
  After the thirteen items of the stream headers the client has been sent, both with
  meta-frame index 0, first the frame with identifier 2 (camera 1, color) and then the frame
  with identifier 0 (camera 0, color).
\<close>

theorem camera_one_written_before_camera_zero:
  "map sent (clients (run [Connection (Inr quietPeer), ColorFrame 1 frame0, Stream,
                           ColorFrame 0 frame0, Stream] twoCameraServer))
   = [[U32 0x12345678, U32 2,
       Buffers [1], Buffers [2], PTransform 0, PTransform 0, Extrinsic 0,
       Buffers [3], Buffers [4], PTransform 0, PTransform 0, Extrinsic 0, Flushed,
       U32 0, U32 2, Buffers [7], Flushed,
       U32 0, U32 0, Buffers [7], Flushed]]"
  by code_simp

text \<open>
  C7 (as stated) fails. Two clients on the server with two cameras; the first client's
  socket throws an exception that is not a \<^verbatim>\<open>std::runtime_error\<close> at its second output
  call after the stream headers. When camera 0's color frame is fanned out, that client is
  deleted, the exception is rethrown and ends the streaming thread; the second client is
  still in the list and has been sent the stream headers only, and the frame stays unsent.
\<close>

theorem other_exception_ends_streaming_thread:
  "streamingThread
     (run [Connection (Inr (Inr False, Inl RuntimeError, Some (14, OtherException))),
           Connection (Inr quietPeer), ColorFrame 0 frame0, Stream] twoCameraServer)
     = Ended Rethrown
   \<and> map sockId (deletedSockets
     (run [Connection (Inr (Inr False, Inl RuntimeError, Some (14, OtherException))),
           Connection (Inr quietPeer), ColorFrame 0 frame0, Stream] twoCameraServer)) = [0]
   \<and> map (\<lambda>c. (sockId c, sent c)) (clients
     (run [Connection (Inr (Inr False, Inl RuntimeError, Some (14, OtherException))),
           Connection (Inr quietPeer), ColorFrame 0 frame0, Stream] twoCameraServer))
     = [(1, [U32 0x12345678, U32 2,
             Buffers [1], Buffers [2], PTransform 0, PTransform 0, Extrinsic 0,
             Buffers [3], Buffers [4], PTransform 0, PTransform 0, Extrinsic 0, Flushed])]
   \<and> \<not> hasSentColorFrame (cameraStates
     (run [Connection (Inr (Inr False, Inl RuntimeError, Some (14, OtherException))),
           Connection (Inr quietPeer), ColorFrame 0 frame0, Stream] twoCameraServer) ! 0)"
  by code_simp

subsection \<open>The listening thread\<close>

lemma writeAll_append:
  "writeAll (xs @ ys) c =
     (case writeAll xs c of (Done, c1) \<Rightarrow> writeAll ys c1 | (r, c1) \<Rightarrow> (r, c1))"
  by (induction xs arbitrary: c) (auto split: sum.splits prod.splits outcome.splits)

lemma writeAll_None:
  "writable c = None \<Longrightarrow> writeAll xs c = (Done, c\<lparr>sent := sent c @ xs\<rparr>)"
  by (induction xs arbitrary: c) (auto simp: writeItem_def)

lemma writeAll_budget:
  "writable c = Some (k, e) \<Longrightarrow> length xs \<le> k \<Longrightarrow>
   writeAll xs c = (Done, c\<lparr>writable := Some (k - length xs, e), sent := sent c @ xs\<rparr>)"
proof (induction xs arbitrary: c k)
  case Nil
  then show ?case by simp
next
  case (Cons x xs)
  then obtain k' where k: "k = Suc k'" by (cases k) auto
  show ?case
    using Cons.prems k
    by (simp add: writeItem_def Cons.IH [of "c\<lparr>writable := Some (k', e), sent := sent c @ [x]\<rparr>" k'])
qed

lemma writeAll_throws:
  "writable c = Some (k, e) \<Longrightarrow> k < length xs \<Longrightarrow>
   writeAll xs c = (Threw e, c\<lparr>writable := Some (0, e), sent := sent c @ take k xs\<rparr>)"
proof (induction xs arbitrary: c k)
  case Nil
  then show ?case by simp
next
  case (Cons x xs)
  show ?case
  proof (cases k)
    case 0
    with Cons.prems show ?thesis by (simp add: writeItem_def)
  next
    case (Suc k')
    with Cons.prems show ?thesis
      by (simp add: writeItem_def Cons.IH [of "c\<lparr>writable := Some (k', e), sent := sent c @ [x]\<rparr>" k'])
  qed
qed

lemma writeHeaders_writeAll: "writeHeaders cam sink = writeAll (headerItems cam) sink"
  by (simp add: writeHeaders_def headerItems_def split: sum.splits)

lemma sendCameraHeaders_writeAll:
  "unat (numCameras s) \<le> length (cameraStates s) \<Longrightarrow> i \<le> numCameras s \<Longrightarrow>
   sendCameraHeaders i s sock =
     writeAll (concat (map headerItems (drop (unat i) (take (unat (numCameras s)) (cameraStates s))))) sock"
proof (induction "unat (numCameras s) - unat i" arbitrary: i sock rule: less_induct)
  case less
  show ?case
  proof (cases "i < numCameras s")
    case False
    with less.prems have "i = numCameras s" by simp
    then show ?thesis by (subst sendCameraHeaders.simps) simp
  next
    case True
    then have ui: "unat i < unat (numCameras s)" by unat_arith
    with less.prems have inb: "unat i < length (cameraStates s)" by simp
    from True have s1: "unat (i + 1) = Suc (unat i)" by unat_arith
    from True have le: "i + 1 \<le> numCameras s" by (rule inc_le)
    have dr: "drop (unat i) (take (unat (numCameras s)) (cameraStates s))
        = cameraStates s ! unat i # drop (Suc (unat i)) (take (unat (numCameras s)) (cameraStates s))"
      using ui inb by (simp add: Cons_nth_drop_Suc [symmetric])
    have IH: "sendCameraHeaders (i + 1) s c =
        writeAll (concat (map headerItems (drop (Suc (unat i)) (take (unat (numCameras s)) (cameraStates s))))) c" for c
      using less.hyps [of "i + 1" c] less.prems(1) le ui s1 by simp
    show ?thesis
      using True inb
      by (subst sendCameraHeaders.simps)
        (simp add: dr writeHeaders_writeAll writeAll_append IH split: prod.splits outcome.splits)
  qed
qed

lemma sendStreamHeaders_writeAll:
  assumes "unat (numCameras s) \<le> length (cameraStates s)"
  shows "sendStreamHeaders s sock = writeAll (streamHeader s) sock"
proof -
  have "sendCameraHeaders 0 s c =
      writeAll (concat (map headerItems (take (unat (numCameras s)) (cameraStates s)))) c" for c
    using sendCameraHeaders_writeAll [OF assms, of 0 c] by simp
  then show ?thesis
    by (simp add: sendStreamHeaders_def streamHeader_def writeAll_append
        split: sum.splits prod.splits outcome.splits)
qed

text \<open>The snapshot, item by item.\<close>

lemma streamHeader_items:
  "streamHeader s =
     [U32 0x12345678, U32 (numCameras s)]
     @ concat (map (\<lambda>cam. [Buffers (colorHeaders cam), Buffers (depthHeaders cam),
                           PTransform (colorProjection cam),
                           PTransform (depthProjection cam),
                           Extrinsic (extrinsicParameters cam)])
                 (take (unat (numCameras s)) (cameraStates s)))
     @ [Flushed]"
proof -
  have "headerItems =
      (\<lambda>cam. [Buffers (colorHeaders cam), Buffers (depthHeaders cam),
              PTransform (colorProjection cam), PTransform (depthProjection cam),
              Extrinsic (extrinsicParameters cam)])"
    by (rule ext) (simp add: headerItems_def)
  then show ?thesis by (simp add: streamHeader_def)
qed

lemma listeningThreadStep_streamHeader:
  assumes "unat (numCameras s) \<le> length (cameraStates s)"
  shows
   "(accepts (length (streamHeader s)) w \<longrightarrow>
       (\<exists>sock. listeningThreadStep (Inr (r, q, w)) s
                 = s\<lparr>clients := clients s @ [sock], nextSockId := Suc (nextSockId s)\<rparr>
              \<and> sockId sock = nextSockId s \<and> sent sock = streamHeader s))
    \<and> (w = Some (k, e) \<and> k < length (streamHeader s) \<longrightarrow>
       (\<exists>sock. listeningThreadStep (Inr (r, q, w)) s
                 = s\<lparr>deletedSockets := deletedSockets s @ [sock],
                     listeningThread :=
                       (if e = RuntimeError then listeningThread s else Ended Rethrown),
                     nextSockId := Suc (nextSockId s)\<rparr>
              \<and> sockId sock = nextSockId s \<and> sent sock = take k (streamHeader s)))"
proof -
  let ?s0 = "s\<lparr>nextSockId := Suc (nextSockId s)\<rparr>"
  let ?sock = "newTCPPipe (nextSockId s) (r, q, w)"
  have wf0: "unat (numCameras ?s0) \<le> length (cameraStates ?s0)" using assms by simp
  have hdr: "streamHeader ?s0 = streamHeader s" by (simp add: streamHeader_def)
  have send: "sendStreamHeaders ?s0 ?sock = writeAll (streamHeader s) ?sock"
    using sendStreamHeaders_writeAll [OF wf0] by (simp add: hdr)
  have step: "listeningThreadStep (Inr (r, q, w)) s =
      (case writeAll (streamHeader s) ?sock of
          (Done, sock) \<Rightarrow> ?s0\<lparr>clients := clients ?s0 @ [sock]\<rparr>
        | (Threw RuntimeError, sock) \<Rightarrow> ?s0\<lparr>deletedSockets := deletedSockets ?s0 @ [sock]\<rparr>
        | (Threw OtherException, sock) \<Rightarrow>
            ?s0\<lparr>deletedSockets := deletedSockets ?s0 @ [sock], listeningThread := Ended Rethrown\<rparr>
        | (BadIndex, sock) \<Rightarrow> ?s0\<lparr>listeningThread := Ended OutOfBounds\<rparr>)"
    by (simp add: listeningThreadStep_def Let_def send)
  have a: "\<exists>sock. listeningThreadStep (Inr (r, q, w)) s
                 = s\<lparr>clients := clients s @ [sock], nextSockId := Suc (nextSockId s)\<rparr>
              \<and> sockId sock = nextSockId s \<and> sent sock = streamHeader s"
    if "accepts (length (streamHeader s)) w"
  proof (cases w)
    case None
    then have "writable ?sock = None" by (simp add: newTCPPipe_def)
    from writeAll_None [OF this, of "streamHeader s"]
    have W: "writeAll (streamHeader s) ?sock = (Done, ?sock\<lparr>sent := sent ?sock @ streamHeader s\<rparr>)" .
    show ?thesis
      by (rule exI [of _ "?sock\<lparr>sent := sent ?sock @ streamHeader s\<rparr>"])
        (simp add: step W, simp add: newTCPPipe_def)
  next
    case (Some ke)
    obtain k' e' where ke: "ke = (k', e')" by (cases ke)
    with Some that have le: "length (streamHeader s) \<le> k'" by (simp add: accepts_def)
    have "writable ?sock = Some (k', e')" using Some ke by (simp add: newTCPPipe_def)
    from writeAll_budget [OF this le]
    have W: "writeAll (streamHeader s) ?sock =
        (Done, ?sock\<lparr>writable := Some (k' - length (streamHeader s), e'),
                       sent := sent ?sock @ streamHeader s\<rparr>)" .
    show ?thesis
      by (rule exI [of _ "?sock\<lparr>writable := Some (k' - length (streamHeader s), e'),
                       sent := sent ?sock @ streamHeader s\<rparr>"])
        (simp add: step W, simp add: newTCPPipe_def)
  qed
  have b: "\<exists>sock. listeningThreadStep (Inr (r, q, w)) s
                 = s\<lparr>deletedSockets := deletedSockets s @ [sock],
                     listeningThread :=
                       (if e = RuntimeError then listeningThread s else Ended Rethrown),
                     nextSockId := Suc (nextSockId s)\<rparr>
              \<and> sockId sock = nextSockId s \<and> sent sock = take k (streamHeader s)"
    if "w = Some (k, e)" "k < length (streamHeader s)"
  proof -
    have "writable ?sock = Some (k, e)" using that by (simp add: newTCPPipe_def)
    from writeAll_throws [OF this that(2)]
    have W: "writeAll (streamHeader s) ?sock =
        (Threw e, ?sock\<lparr>writable := Some (0, e),
                          sent := sent ?sock @ take k (streamHeader s)\<rparr>)" .
    show ?thesis
      by (rule exI [of _ "?sock\<lparr>writable := Some (0, e),
                          sent := sent ?sock @ take k (streamHeader s)\<rparr>"])
        (cases e; simp add: step W; simp add: newTCPPipe_def)
  qed
  from a b show ?thesis by blast
qed

text \<open>
  C4. For a connection that was accepted, the listening thread writes to the new socket, in
  this order: the magic number \<open>0x12345678\<close>, the camera count, then for each camera in index
  order its color stream header, its depth stream header, its color projection, its depth
  projection and its extrinsic parameters, then the flush; \<open>hdr\<close> is this sequence. If all
  these output calls succeed, the socket, holding exactly \<open>hdr\<close>, is appended to the client
  list, and nothing else changes. If the output call number \<open>k\<close> throws, the socket is
  deleted with the first \<open>k\<close> items of \<open>hdr\<close> written, the client list is unchanged, and the
  thread goes on after a \<^verbatim>\<open>std::runtime_error\<close> and ends with the rethrow of anything else.
  (The append is one step of the model; the mutex that makes it one is not modelled.)
\<close>

theorem accepted_connection_headers_then_append:
  assumes "unat (numCameras s) \<le> length (cameraStates s)"
    and "hdr =
       [U32 0x12345678, U32 (numCameras s)]
         @ concat (map (\<lambda>cam. [Buffers (colorHeaders cam), Buffers (depthHeaders cam),
                               PTransform (colorProjection cam),
                               PTransform (depthProjection cam),
                               Extrinsic (extrinsicParameters cam)])
                     (take (unat (numCameras s)) (cameraStates s)))
         @ [Flushed]"
  shows
   "(accepts (length hdr) w \<longrightarrow>
       (\<exists>sock. listeningThreadStep (Inr (r, q, w)) s
                 = s\<lparr>clients := clients s @ [sock], nextSockId := Suc (nextSockId s)\<rparr>
              \<and> sockId sock = nextSockId s \<and> sent sock = hdr))
    \<and> (w = Some (k, e) \<and> k < length hdr \<longrightarrow>
       (\<exists>sock. listeningThreadStep (Inr (r, q, w)) s
                 = s\<lparr>deletedSockets := deletedSockets s @ [sock],
                     listeningThread :=
                       (if e = RuntimeError then listeningThread s else Ended Rethrown),
                     nextSockId := Suc (nextSockId s)\<rparr>
              \<and> sockId sock = nextSockId s \<and> sent sock = take k hdr))"
proof -
  have "hdr = streamHeader s" by (simp only: assms(2) streamHeader_items)
  with listeningThreadStep_streamHeader [OF assms(1), of w r q k e] show ?thesis by simp
qed

text \<open>
  An instance, on the server whose two cameras differ in every header item: a socket that
  takes every output call, and one whose fourth output call throws.
\<close>

theorem accepted_connection_headers_then_append_witness:
  "unat (numCameras stereoServer) \<le> length (cameraStates stereoServer)
   \<and> (\<exists>sock. listeningThreadStep (Inr (Inr False, Inl RuntimeError, None)) stereoServer
                 = stereoServer\<lparr>clients := clients stereoServer @ [sock],
                     nextSockId := Suc (nextSockId stereoServer)\<rparr>
              \<and> sockId sock = nextSockId stereoServer
              \<and> sent sock =
                  [U32 0x12345678, U32 2,
                   Buffers [1], Buffers [2], PTransform 1, PTransform 2, Extrinsic 3,
                   Buffers [3], Buffers [4], PTransform 4, PTransform 5, Extrinsic 6,
                   Flushed])
   \<and> (\<exists>sock. listeningThreadStep (Inr (Inr False, Inl RuntimeError, Some (3, RuntimeError)))
                  stereoServer
                 = stereoServer\<lparr>deletedSockets := deletedSockets stereoServer @ [sock],
                     listeningThread := listeningThread stereoServer,
                     nextSockId := Suc (nextSockId stereoServer)\<rparr>
              \<and> sockId sock = nextSockId stereoServer
              \<and> sent sock = [U32 0x12345678, U32 2, Buffers [1]])"
proof -
  let ?hdr = "[U32 0x12345678, U32 2,
               Buffers [1], Buffers [2], PTransform 1, PTransform 2, Extrinsic 3,
               Buffers [3], Buffers [4], PTransform 4, PTransform 5, Extrinsic 6,
               Flushed]"
  have h: "unat (numCameras stereoServer) \<le> length (cameraStates stereoServer)"
    by code_simp
  have hdr: "?hdr =
       [U32 0x12345678, U32 (numCameras stereoServer)]
         @ concat (map (\<lambda>cam. [Buffers (colorHeaders cam), Buffers (depthHeaders cam),
                               PTransform (colorProjection cam),
                               PTransform (depthProjection cam),
                               Extrinsic (extrinsicParameters cam)])
                     (take (unat (numCameras stereoServer)) (cameraStates stereoServer)))
         @ [Flushed]"
    by code_simp
  have a: "accepts (length ?hdr) None" by (simp add: accepts_def)
  have l: "Some (3, RuntimeError) = Some (3, RuntimeError) \<and> 3 < length ?hdr" by simp
  have t: "take 3 ?hdr = [U32 0x12345678, U32 2, Buffers [1]]" by simp
  from accepted_connection_headers_then_append
      [OF h hdr, of None "Inr False" "Inl RuntimeError"] a
  have A: "\<exists>sock. listeningThreadStep (Inr (Inr False, Inl RuntimeError, None)) stereoServer
                 = stereoServer\<lparr>clients := clients stereoServer @ [sock],
                     nextSockId := Suc (nextSockId stereoServer)\<rparr>
              \<and> sockId sock = nextSockId stereoServer \<and> sent sock = ?hdr"
    by blast
  from accepted_connection_headers_then_append
      [OF h hdr, of "Some (3, RuntimeError)" "Inr False" "Inl RuntimeError" 3 RuntimeError] l
  have B: "\<exists>sock. listeningThreadStep (Inr (Inr False, Inl RuntimeError, Some (3, RuntimeError)))
                  stereoServer
                 = stereoServer\<lparr>deletedSockets := deletedSockets stereoServer @ [sock],
                     listeningThread := listeningThread stereoServer,
                     nextSockId := Suc (nextSockId stereoServer)\<rparr>
              \<and> sockId sock = nextSockId stereoServer
              \<and> sent sock = [U32 0x12345678, U32 2, Buffers [1]]"
    unfolding t by simp
  from h A B show ?thesis by blast
qed

subsection \<open>The constructor\<close>

lemma findDevice_less_iff: "findDevice sn ds < length ds \<longleftrightarrow> sn \<in> serial ` set ds"
  by (induction ds) auto

lemma findDevice_serial: "findDevice sn ds < length ds \<Longrightarrow> serial (ds ! findDevice sn ds) = sn"
  by (induction ds) auto

lemma createCameras_result:
  "\<forall>sec\<in>set secs. serialNumber sec \<noteq> None \<Longrightarrow>
   createCameras secs kinects (n, cams, msgs) =
     Inr (n + of_nat (length (filter (present kinects) secs)),
          cams @ map (cameraFor kinects) (filter (present kinects) secs),
          msgs @ map missingMessage (filter (\<lambda>sec. \<not> present kinects sec) secs))"
proof (induction secs arbitrary: n cams msgs)
  case Nil
  show ?case by simp
next
  case (Cons sec secs)
  then obtain sn where sn: "serialNumber sec = Some sn" by auto
  from Cons.prems have rest: "\<forall>sec\<in>set secs. serialNumber sec \<noteq> None" by simp
  show ?case
    by (simp add: sn Let_def Cons.IH [OF rest] present_def cameraFor_def missingMessage_def)
qed

lemma createCameras_missing_key:
  "\<exists>sec\<in>set secs. serialNumber sec = None \<Longrightarrow>
   createCameras secs kinects acc = Inl RuntimeError"
proof (induction secs arbitrary: acc)
  case Nil
  then show ?case by simp
next
  case (Cons sec secs)
  obtain n cams msgs where acc: "acc = (n, cams, msgs)" by (metis prod_cases3)
  show ?case
  proof (cases "serialNumber sec")
    case None
    then show ?thesis by (simp add: acc)
  next
    case (Some sn)
    with Cons.prems have "\<exists>sec\<in>set secs. serialNumber sec = None" by auto
    then show ?thesis by (simp add: acc Some Let_def Cons.IH)
  qed
qed

lemma startAll_map:
  "unat n = length cams \<Longrightarrow> unat i \<le> length cams \<Longrightarrow>
   startAll i n cams = take (unat i) cams @ map startStreaming (drop (unat i) cams)"
proof (induction "length cams - unat i" arbitrary: i cams rule: less_induct)
  case less
  show ?case
  proof (cases "i < n")
    case False
    with less.prems have "unat i = length cams" by unat_arith
    with False show ?thesis by (subst startAll.simps) simp
  next
    case True
    with less.prems have inb: "unat i < length cams" by unat_arith
    from True have s1: "unat (i + 1) = Suc (unat i)" by unat_arith
    let ?cams = "cams[unat i := startStreaming (cams ! unat i)]"
    have "startAll (i + 1) n ?cams
        = take (unat (i + 1)) ?cams @ map startStreaming (drop (unat (i + 1)) ?cams)"
      using less.prems inb s1 by (intro less.hyps) auto
    also have "\<dots> = take (unat i) cams @ map startStreaming (drop (unat i) cams)"
      using inb by (simp add: s1 take_Suc_conv_app_nth Cons_nth_drop_Suc [symmetric])
    finally show ?thesis
      using True inb by (subst startAll.simps) simp
  qed
qed

lemma of_nat_u32_pos: "n < 2 ^ 32 \<Longrightarrow> (0 :: u32) < of_nat n \<longleftrightarrow> 0 < n"
  by (simp add: word_less_nat_alt unat_of_nat)

text \<open>
  C8. With fewer than \<open>2^32\<close> configured cameras, each of which has the required key
  \<^verbatim>\<open>serialNumber\<close>, the constructor completes. It starts the listening thread whatever
  was found; it starts the streaming thread exactly when \<open>numCameras\<close>, the number of
  configured cameras found among the Kinect devices on the bus, is positive; a configured
  serial number without a device only adds a line to the error output, and the camera
  states created for the cameras that were found are the same whether or not other
  configured cameras are missing.
\<close>

theorem constructor_starts_threads:
  assumes "length cameraSections < 2 ^ 32"
    and "\<forall>sec\<in>set cameraSections. serialNumber sec \<noteq> None"
  shows "\<exists>s. newKinectServer usbDevices cameraSections = Inr s
     \<and> listeningThread s = Running
     \<and> (streamingThread s = Running \<longleftrightarrow> 0 < numCameras s)
     \<and> (streamingThread s = NotStarted \<longleftrightarrow> numCameras s = 0)
     \<and> (0 < numCameras s \<longleftrightarrow>
          (\<exists>sec\<in>set cameraSections. present (filter isKinect usbDevices) sec))
     \<and> numCameras s
         = of_nat (length (filter (present (filter isKinect usbDevices)) cameraSections))
     \<and> cameraStates s
         = map (\<lambda>sec. startStreaming (cameraFor (filter isKinect usbDevices) sec))
             (filter (present (filter isKinect usbDevices)) cameraSections)
     \<and> errLog s
         = map missingMessage
             (filter (\<lambda>sec. \<not> present (filter isKinect usbDevices) sec) cameraSections)
     \<and> (\<forall>sec. present (filter isKinect usbDevices) sec \<longleftrightarrow>
           (\<exists>d\<in>set usbDevices. isKinect d \<and> serialNumber sec = Some (serial d)))"
proof -
  let ?k = "filter isKinect usbDevices"
  let ?found = "filter (present ?k) cameraSections"
  let ?n = "of_nat (length ?found) :: u32"
  have len: "length ?found < 2 ^ 32"
    using assms(1) length_filter_le [of "present ?k" cameraSections]
    by (metis le_less_trans)
  have cc: "createCameras cameraSections ?k (0, [], []) =
      Inr (?n, map (cameraFor ?k) ?found,
           map missingMessage (filter (\<lambda>sec. \<not> present ?k sec) cameraSections))"
    using createCameras_result [OF assms(2), of ?k 0 "[]" "[]"] by simp
  have sa: "startAll 0 ?n (map (cameraFor ?k) ?found)
      = map startStreaming (map (cameraFor ?k) ?found)"
    using len by (subst startAll_map) (simp_all add: unat_of_nat)
  have pos: "0 < ?n \<longleftrightarrow> (\<exists>sec\<in>set cameraSections. present ?k sec)"
    using len by (simp add: of_nat_u32_pos filter_empty_conv)
  have z: "?n = 0 \<longleftrightarrow> \<not> 0 < ?n" by (simp add: word_greater_zero_iff)
  have pr: "\<forall>sec. present ?k sec \<longleftrightarrow>
      (\<exists>d\<in>set usbDevices. isKinect d \<and> serialNumber sec = Some (serial d))"
    by (auto simp: present_def findDevice_less_iff split: option.splits)
  show ?thesis
    unfolding newKinectServer_def cc
    using pos z pr by (simp add: sa comp_def)
qed

theorem constructor_starts_threads_witness:
  "length [plainSection ''A'', plainSection ''Z''] < 2 ^ 32
   \<and> serialNumber (plainSection ''A'') \<noteq> None \<and> serialNumber (plainSection ''Z'') \<noteq> None
   \<and> (\<exists>s. newKinectServer [device0, device1] [plainSection ''A'', plainSection ''Z''] = Inr s
          \<and> listeningThread s = Running \<and> streamingThread s = Running
          \<and> numCameras s = 1 \<and> length (cameraStates s) = 1
          \<and> errLog s = [notFound ''Z''])
   \<and> (\<exists>s. newKinectServer [device0, device1] [plainSection ''Z''] = Inr s
          \<and> listeningThread s = Running \<and> streamingThread s = NotStarted
          \<and> numCameras s = 0 \<and> cameraStates s = []
          \<and> errLog s = [notFound ''Z''])"
proof -
  let ?k = "filter isKinect [device0, device1]"
  have l2: "length [plainSection ''A'', plainSection ''Z''] < 2 ^ 32" by simp
  have l1: "length [plainSection ''Z''] < 2 ^ 32" by simp
  have k2: "\<forall>sec\<in>set [plainSection ''A'', plainSection ''Z'']. serialNumber sec \<noteq> None"
    by (simp add: plainSection_def)
  have k1: "\<forall>sec\<in>set [plainSection ''Z'']. serialNumber sec \<noteq> None"
    by (simp add: plainSection_def)
  have pA: "present ?k (plainSection ''A'')" by code_simp
  have pZ: "\<not> present ?k (plainSection ''Z'')" by code_simp
  have mZ: "missingMessage (plainSection ''Z'') = notFound ''Z''"
    by (simp add: missingMessage_def plainSection_def)
  from constructor_starts_threads [OF l2 k2, of "[device0, device1]"] pA pZ mZ
  have A: "\<exists>s. newKinectServer [device0, device1] [plainSection ''A'', plainSection ''Z''] = Inr s
          \<and> listeningThread s = Running \<and> streamingThread s = Running
          \<and> numCameras s = 1 \<and> length (cameraStates s) = 1
          \<and> errLog s = [notFound ''Z'']"
    by auto
  from constructor_starts_threads [OF l1 k1, of "[device0, device1]"] pZ mZ
  have B: "\<exists>s. newKinectServer [device0, device1] [plainSection ''Z''] = Inr s
          \<and> listeningThread s = Running \<and> streamingThread s = NotStarted
          \<and> numCameras s = 0 \<and> cameraStates s = []
          \<and> errLog s = [notFound ''Z'']"
    by auto
  from A B l2 k2 show ?thesis by simp
qed

subsection \<open>Stream headers and frame records on the sockets\<close>

lemma streamHeader_snapshot:
  "streamHeader s = snapshot (numCameras s) (map headerItems (cameraStates s))"
  by (simp add: streamHeader_def snapshot_def take_map)

lemma frameRecords_append:
  "frameRecords xs \<Longrightarrow> frameRecords ys \<Longrightarrow> frameRecords (xs @ ys)"
  by (induction xs rule: frameRecords.induct) auto

lemma serve_sockId: "sockId (snd (serve m f d c)) = sockId c"
  by (auto simp: serve_def waitForData_def readU32_def writeItem_def
      split: sum.splits bool.splits option.splits nat.splits prod.splits)

lemma serve_Written_sent:
  "serve m f d c = (Written, c') \<Longrightarrow> sent c' = sent c @ [U32 m, U32 f, Buffers d, Flushed]"
  by (auto simp: serve_def waitForData_def readU32_def writeItem_def
      split: sum.splits bool.splits option.splits nat.splits prod.splits)

lemma serveEachOnce_clients:
  "serveEachOnce m f d cs = (st, cs', del) \<Longrightarrow> c' \<in> set cs' \<Longrightarrow>
   \<exists>c\<in>set cs. sockId c' = sockId c
      \<and> (sent c' = sent c \<or> sent c' = sent c @ [U32 m, U32 f, Buffers d, Flushed])"
proof (induction cs arbitrary: st cs' del)
  case Nil
  then show ?case by simp
next
  case (Cons c cs)
  obtain r c1 where sv: "serve m f d c = (r, c1)" by (cases "serve m f d c")
  obtain st2 k2 d2 where rec: "serveEachOnce m f d cs = (st2, k2, d2)" by (metis prod_cases3)
  have id1: "sockId c1 = sockId c" using serve_sockId [of m f d c] sv by simp
  show ?case
  proof (cases r)
    case Written
    with Cons.prems sv rec have cs': "cs' = c1 # k2" by simp
    show ?thesis
    proof (cases "c' = c1")
      case True
      then show ?thesis using serve_Written_sent sv Written id1 by auto
    next
      case False
      with cs' Cons.prems(2) have "c' \<in> set k2" by simp
      from Cons.IH [OF rec this] show ?thesis by auto
    qed
  next
    case Requested
    with Cons.prems sv rec have "cs' = k2" by simp
    with Cons.prems(2) Cons.IH [OF rec] show ?thesis by auto
  next
    case (Raised e)
    show ?thesis
    proof (cases e)
      case RuntimeError
      with Raised Cons.prems sv rec have "cs' = k2" by simp
      with Cons.prems(2) Cons.IH [OF rec] show ?thesis by auto
    next
      case OtherException
      with Raised Cons.prems sv have "cs' = cs" by simp
      with Cons.prems(2) show ?thesis by auto
    qed
  qed
qed

lemma serveEachOnce_length:
  "serveEachOnce m f d cs = (st, cs', del) \<Longrightarrow> length cs' \<le> length cs"
proof (induction cs arbitrary: st cs' del)
  case Nil
  then show ?case by simp
next
  case (Cons c cs)
  obtain st2 k2 d2 where rec: "serveEachOnce m f d cs = (st2, k2, d2)" by (metis prod_cases3)
  from Cons.IH [OF rec] Cons.prems rec show ?case
    by (auto split: prod.splits served.splits exn.splits)
qed

lemma fanout_clients:
  assumes "length cs < 2 ^ 32" "fanout m f d cs del = (st, cs', del')" "c' \<in> set cs'"
  shows "\<exists>c\<in>set cs. sockId c' = sockId c
      \<and> (sent c' = sent c \<or> sent c' = sent c @ [U32 m, U32 f, Buffers d, Flushed])"
proof -
  obtain st2 k2 d2 where rec: "serveEachOnce m f d cs = (st2, k2, d2)" by (metis prod_cases3)
  with assms(1,2) have "cs' = k2" by (simp add: fanout_serveEachOnce)
  with serveEachOnce_clients [OF rec] assms(3) show ?thesis by simp
qed

lemma fanout_length:
  assumes "length cs < 2 ^ 32" "fanout m f d cs del = (st, cs', del')"
  shows "length cs' \<le> length cs"
proof -
  obtain st2 k2 d2 where rec: "serveEachOnce m f d cs = (st2, k2, d2)" by (metis prod_cases3)
  with assms(1,2) have "cs' = k2" by (simp add: fanout_serveEachOnce)
  with serveEachOnce_length [OF rec] show ?thesis by simp
qed

lemma headerItems_update_flags [simp]:
  "headerItems (cam\<lparr>hasSentColorFrame := a\<rparr>) = headerItems cam"
  "headerItems (cam\<lparr>hasSentDepthFrame := b\<rparr>) = headerItems cam"
  "headerItems (cam\<lparr>colorFrames := tb\<rparr>) = headerItems cam"
  "headerItems (cam\<lparr>depthFrames := tb\<rparr>) = headerItems cam"
  by (simp_all add: headerItems_def)

lemma headerItems_callbacks [simp]:
  "headerItems (colorStreamingCallback f cam) = headerItems cam"
  "headerItems (depthStreamingCallback f cam) = headerItems cam"
  by (simp_all add: headerItems_def colorStreamingCallback_def depthStreamingCallback_def
      storeBuffers_def Let_def)

lemma map_update_same: "i < length xs \<Longrightarrow> g y = g (xs ! i) \<Longrightarrow> map g (xs[i := y]) = map g xs"
  by (simp add: map_update list_update_same_conv)

lemma headersInv_clients:
  assumes "headersInv n hs s" "length (clients s) < 2 ^ 32"
    "fanout m f d (clients s) (deletedSockets s) = (st, cs, del)"
    "numCameras s' = numCameras s" "map headerItems (cameraStates s') = map headerItems (cameraStates s)"
    "clients s' = cs"
  shows "headersInv n hs s'"
proof -
  have "\<exists>fs. sent c' = snapshot n hs @ fs \<and> frameRecords fs" if "c' \<in> set cs" for c'
  proof -
    from fanout_clients [OF assms(2,3) that] obtain c where c: "c \<in> set (clients s)"
      "sent c' = sent c \<or> sent c' = sent c @ [U32 m, U32 f, Buffers d, Flushed]" by auto
    from assms(1) c(1) obtain fs where fs: "sent c = snapshot n hs @ fs" "frameRecords fs"
      by (auto simp: headersInv_def)
    from c(2) show ?thesis
    proof
      assume "sent c' = sent c" with fs show ?thesis by auto
    next
      assume "sent c' = sent c @ [U32 m, U32 f, Buffers d, Flushed]"
      with fs have "sent c' = snapshot n hs @ (fs @ [U32 m, U32 f, Buffers d, Flushed])"
        "frameRecords (fs @ [U32 m, U32 f, Buffers d, Flushed])"
        by (simp_all add: frameRecords_append)
      then show ?thesis by blast
    qed
  qed
  with assms show ?thesis by (simp add: headersInv_def)
qed

lemma colorBranch_headersInv:
  assumes "headersInv n hs s" "length (clients s) < 2 ^ 32"
  shows "headersInv n hs (snd (snd (colorBranch i found s)))
       \<and> length (clients (snd (snd (colorBranch i found s)))) \<le> length (clients s)"
proof (cases i found s rule: colorBranch_cases)
  case bad
  with assms show ?thesis by simp
next
  case idle
  with assms show ?thesis by simp
next
  case (sent cs del)
  show ?thesis
    unfolding sent(4) using sent(1) fanout_length [OF assms(2) sent(3)]
    by (auto intro!: headersInv_clients [OF assms sent(3)] simp: map_update_same)
next
  case (failed st cs del)
  show ?thesis
    unfolding failed(5) using failed(1) fanout_length [OF assms(2) failed(3)]
    by (auto intro!: headersInv_clients [OF assms failed(3)] simp: map_update_same)
qed

lemma depthBranch_headersInv:
  assumes "headersInv n hs s" "length (clients s) < 2 ^ 32"
  shows "headersInv n hs (snd (snd (depthBranch i found s)))
       \<and> length (clients (snd (snd (depthBranch i found s)))) \<le> length (clients s)"
proof (cases i found s rule: depthBranch_cases)
  case bad
  with assms show ?thesis by simp
next
  case idle
  with assms show ?thesis by simp
next
  case (sent cs del)
  show ?thesis
    unfolding sent(4) using sent(1) fanout_length [OF assms(2) sent(3)]
    by (auto intro!: headersInv_clients [OF assms sent(3)] simp: map_update_same)
next
  case (failed st cs del)
  show ?thesis
    unfolding failed(5) using failed(1) fanout_length [OF assms(2) failed(3)]
    by (auto intro!: headersInv_clients [OF assms failed(3)] simp: map_update_same)
qed

lemma headersInv_streamingThread [simp]:
  "headersInv n hs (s\<lparr>streamingThread := x\<rparr>) = headersInv n hs s"
  by (simp add: headersInv_def)

lemma cameraTurn_headersInv:
  assumes "headersInv n hs s" "length (clients s) < 2 ^ 32"
  shows "headersInv n hs (snd (snd (cameraTurn i s)))
       \<and> length (clients (snd (snd (cameraTurn i s)))) \<le> length (clients s)"
proof -
  obtain st f1 s1 where cb: "colorBranch i False s = (st, f1, s1)" by (metis prod_cases3)
  from colorBranch_headersInv [OF assms, of i False] cb
  have 1: "headersInv n hs s1" "length (clients s1) \<le> length (clients s)" by simp_all
  with assms(2) have "length (clients s1) < 2 ^ 32" by simp
  from depthBranch_headersInv [OF 1(1) this, of i f1] 1(2)
  have 2: "headersInv n hs (snd (snd (depthBranch i f1 s1)))"
    "length (clients (snd (snd (depthBranch i f1 s1)))) \<le> length (clients s)" by simp_all
  show ?thesis
    using cb 1 2 by (cases st) (simp_all add: cameraTurn_def)
qed

lemma scanCameras_headersInv:
  assumes "headersInv n hs s" "length (clients s) < 2 ^ 32"
  shows "headersInv n hs (snd (snd (scanCameras 0 False s)))
       \<and> length (clients (snd (snd (scanCameras 0 False s)))) \<le> length (clients s)"
  using scanCameras_nothing_or_one_turn [of 0 s] cameraTurn_headersInv [OF assms] assms(1)
  by auto

lemma resetFlags_frame:
  "\<exists>cams. snd (resetFlags i s) = s\<lparr>cameraStates := cams\<rparr>
     \<and> map headerItems cams = map headerItems (cameraStates s)"
proof (induction "2 ^ 32 - unat i" arbitrary: i s rule: less_induct)
  case less
  show ?case
  proof (cases "i < numCameras s \<and> unat i < length (cameraStates s)")
    case False
    then have "snd (resetFlags i s) = s"
      by (subst resetFlags.simps) auto
    then show ?thesis by (intro exI [of _ "cameraStates s"]) simp
  next
    case True
    let ?s1 = "s\<lparr>cameraStates := (cameraStates s)
                 [unat i := (cameraStates s ! unat i)
                    \<lparr>hasSentColorFrame := False, hasSentDepthFrame := False\<rparr>]\<rparr>"
    have dec: "2 ^ 32 - unat (i + 1) < (2 ^ 32 :: nat) - unat i"
    proof -
      from True have "unat (i + 1) = Suc (unat i)" by unat_arith
      moreover have "unat i < 2 ^ 32" using unsigned_less [of i, where ?'a = nat] by simp
      ultimately show ?thesis by simp
    qed
    from less.hyps [OF dec, of ?s1] obtain cams where
      c: "snd (resetFlags (i + 1) ?s1) = ?s1\<lparr>cameraStates := cams\<rparr>"
        "map headerItems cams = map headerItems (cameraStates ?s1)" by blast
    have "snd (resetFlags i s) = snd (resetFlags (i + 1) ?s1)"
      using True by (subst resetFlags.simps) simp
    with c True show ?thesis
      by (intro exI [of _ cams]) (simp add: map_update_same)
  qed
qed

lemma startNewMetaFrame_frame:
  "\<exists>cams a b. snd (startNewMetaFrame s)
       = s\<lparr>cameraStates := cams, metaFrameIndex := metaFrameIndex s + 1,
            numMissingColorFrames := a, numMissingDepthFrames := b\<rparr>
     \<and> map headerItems cams = map headerItems (cameraStates s)"
proof -
  let ?s1 = "s\<lparr>metaFrameIndex := metaFrameIndex s + 1\<rparr>"
  obtain st s2 where rf: "resetFlags 0 ?s1 = (st, s2)" by (cases "resetFlags 0 ?s1")
  from resetFlags_frame [of 0 ?s1] rf obtain cams where
    c: "s2 = ?s1\<lparr>cameraStates := cams\<rparr>"
      "map headerItems cams = map headerItems (cameraStates s)" by auto
  show ?thesis
  proof (cases "st = Completed")
    case True
    show ?thesis
      by (rule exI [of _ cams], rule exI [of _ "numCameras s"], rule exI [of _ "numCameras s"])
        (simp add: startNewMetaFrame_def rf True c)
  next
    case False
    show ?thesis
      by (rule exI [of _ cams], rule exI [of _ "numMissingColorFrames s"],
          rule exI [of _ "numMissingDepthFrames s"])
        (use False in \<open>cases st; simp add: startNewMetaFrame_def rf c\<close>)
  qed
qed

lemma streamingThreadStep_headersInv:
  assumes "headersInv n hs s" "length (clients s) < 2 ^ 32"
  shows "headersInv n hs (streamingThreadStep s)
       \<and> length (clients (streamingThreadStep s)) \<le> length (clients s)"
proof (cases "numMissingDepthFrames s > 0 \<or> numMissingColorFrames s > 0")
  case True
  obtain st f s1 where sc: "scanCameras 0 False s = (st, f, s1)" by (metis prod_cases3)
  with scanCameras_headersInv [OF assms] have "headersInv n hs s1"
    "length (clients s1) \<le> length (clients s)" by simp_all
  then show ?thesis
    using True sc by (cases st) (simp_all add: streamingThreadStep_def)
next
  case False
  obtain st s1 where nm: "startNewMetaFrame s = (st, s1)" by (cases "startNewMetaFrame s")
  from startNewMetaFrame_frame [of s] nm obtain cams a b where
    c: "s1 = s\<lparr>cameraStates := cams, metaFrameIndex := metaFrameIndex s + 1,
            numMissingColorFrames := a, numMissingDepthFrames := b\<rparr>"
      "map headerItems cams = map headerItems (cameraStates s)" by auto
  have "headersInv n hs s1" "length (clients s1) \<le> length (clients s)"
    using assms(1) c by (simp_all add: headersInv_def)
  then show ?thesis
    using False nm by (cases st) (simp_all add: streamingThreadStep_def)
qed

lemma writeAll_Done:
  "writeAll xs c = (Done, c') \<Longrightarrow> sent c' = sent c @ xs \<and> sockId c' = sockId c"
proof (induction xs arbitrary: c)
  case Nil
  then show ?case by simp
next
  case (Cons x xs)
  then obtain c1 where w: "writeItem x c = Inr c1" and r: "writeAll xs c1 = (Done, c')"
    by (auto split: sum.splits)
  from w have "sent c1 = sent c @ [x]" "sockId c1 = sockId c"
    by (auto simp: writeItem_def split: option.splits prod.splits nat.splits)
  with Cons.IH [OF r] show ?case by simp
qed

lemma listeningThreadStep_accepted:
  assumes "unat (numCameras s) \<le> length (cameraStates s)"
  shows "listeningThreadStep (Inr p) s =
      (case writeAll (streamHeader s) (newTCPPipe (nextSockId s) p) of
          (Done, sock) \<Rightarrow> s\<lparr>nextSockId := Suc (nextSockId s), clients := clients s @ [sock]\<rparr>
        | (Threw RuntimeError, sock) \<Rightarrow>
            s\<lparr>nextSockId := Suc (nextSockId s), deletedSockets := deletedSockets s @ [sock]\<rparr>
        | (Threw OtherException, sock) \<Rightarrow>
            s\<lparr>nextSockId := Suc (nextSockId s), deletedSockets := deletedSockets s @ [sock],
              listeningThread := Ended Rethrown\<rparr>
        | (BadIndex, sock) \<Rightarrow>
            s\<lparr>nextSockId := Suc (nextSockId s), listeningThread := Ended OutOfBounds\<rparr>)"
proof -
  let ?s0 = "s\<lparr>nextSockId := Suc (nextSockId s)\<rparr>"
  have wf0: "unat (numCameras ?s0) \<le> length (cameraStates ?s0)" using assms by simp
  have hdr: "streamHeader ?s0 = streamHeader s" by (simp add: streamHeader_def)
  have "sendStreamHeaders ?s0 sock = writeAll (streamHeader s) sock" for sock
    using sendStreamHeaders_writeAll [OF wf0] by (simp add: hdr)
  then show ?thesis
    by (simp add: listeningThreadStep_def Let_def
        split: prod.splits outcome.splits exn.splits)
qed

lemma listeningThreadStep_headersInv:
  assumes "headersInv n hs s"
  shows "headersInv n hs (listeningThreadStep a s)
       \<and> length (clients (listeningThreadStep a s)) \<le> Suc (length (clients s))"
proof (cases a)
  case (Inl e)
  with assms show ?thesis
    by (cases e) (simp_all add: listeningThreadStep_def headersInv_def)
next
  case (Inr p)
  from assms have wf: "unat (numCameras s) \<le> length (cameraStates s)"
    by (auto simp: headersInv_def)
  from assms have hdr: "streamHeader s = snapshot n hs"
    by (auto simp: headersInv_def streamHeader_snapshot)
  obtain r sock where w: "writeAll (streamHeader s) (newTCPPipe (nextSockId s) p) = (r, sock)"
    by (cases "writeAll (streamHeader s) (newTCPPipe (nextSockId s) p)")
  show ?thesis
  proof (cases r)
    case Done
    with w have "sent sock = snapshot n hs"
      using writeAll_Done [of "streamHeader s" "newTCPPipe (nextSockId s) p" sock] hdr
      by (cases p) (simp add: newTCPPipe_def)
    then have "\<exists>fs. sent sock = snapshot n hs @ fs \<and> frameRecords fs"
      by (intro exI [of _ "[]"]) simp
    with assms show ?thesis
      by (auto simp: Inr listeningThreadStep_accepted [OF wf] w Done headersInv_def)
  next
    case (Threw e)
    with assms show ?thesis
      by (cases e) (simp_all add: Inr listeningThreadStep_accepted [OF wf] w headersInv_def)
  next
    case BadIndex
    with assms show ?thesis
      by (simp add: Inr listeningThreadStep_accepted [OF wf] w headersInv_def)
  qed
qed

lemma sent_setPeer [simp]: "sent (setPeer k p c) = sent c"
  by (cases p) (simp add: setPeer_def)

lemma sockId_setPeer [simp]: "sockId (setPeer k p c) = sockId c"
  by (cases p) (simp add: setPeer_def)

lemma step_headersInv:
  assumes "headersInv n hs s" "length (clients s) < 2 ^ 32"
  shows "headersInv n hs (step e s) \<and> length (clients (step e s)) \<le> Suc (length (clients s))"
proof (cases e)
  case (ColorFrame i f)
  with assms(1) show ?thesis by (auto simp: headersInv_def map_update_same)
next
  case (DepthFrame i f)
  with assms(1) show ?thesis by (auto simp: headersInv_def map_update_same)
next
  case (Connection a)
  with assms(1) listeningThreadStep_headersInv [OF assms(1), of a] show ?thesis by simp
next
  case (Peer k p)
  with assms(1) show ?thesis by (auto simp: headersInv_def)
next
  case Stream
  with assms streamingThreadStep_headersInv [OF assms] show ?thesis by auto
qed

lemma run_snoc: "run (evs @ [e]) s = step e (run evs s)"
  by (simp add: run_def)

lemma run_headersInv:
  assumes "headersInv n hs s0" "length (clients s0) + length evs < 2 ^ 32"
  shows "headersInv n hs (run evs s0)
       \<and> length (clients (run evs s0)) \<le> length (clients s0) + length evs"
  using assms(2)
proof (induction evs rule: rev_induct)
  case Nil
  with assms(1) show ?case by (simp add: run_def)
next
  case (snoc e evs)
  then have IH: "headersInv n hs (run evs s0)"
    "length (clients (run evs s0)) \<le> length (clients s0) + length evs" by simp_all
  with snoc.prems have "length (clients (run evs s0)) < 2 ^ 32" by simp
  from step_headersInv [OF IH(1) this, of e] IH(2) show ?case
    by (simp add: run_snoc)
qed

lemma writeAll_sent: "\<exists>k. sent (snd (writeAll xs c)) = sent c @ take k xs"
proof (induction xs arbitrary: c)
  case Nil
  show ?case by simp
next
  case (Cons x xs)
  show ?case
  proof (cases "writeItem x c")
    case (Inl e)
    then show ?thesis by (auto intro: exI [of _ 0])
  next
    case (Inr c1)
    then have s1: "sent c1 = sent c @ [x]"
      by (auto simp: writeItem_def split: option.splits prod.splits nat.splits)
    from Cons.IH [of c1] obtain k where "sent (snd (writeAll xs c1)) = sent c1 @ take k xs" ..
    with Inr s1 show ?thesis by (auto intro: exI [of _ "Suc k"])
  qed
qed

lemma serve_writeAll:
  "waitForData c = Inr False \<Longrightarrow>
   snd (serve m f d c) = snd (writeAll [U32 m, U32 f, Buffers d, Flushed] c)"
  by (simp add: serve_def split: sum.splits)

lemma serve_sent: "\<exists>k. sent (snd (serve m f d c)) = sent c @ take k [U32 m, U32 f, Buffers d, Flushed]"
proof (cases "waitForData c")
  case (Inl e)
  then show ?thesis by (auto simp: serve_def intro: exI [of _ 0])
next
  case (Inr b)
  show ?thesis
  proof (cases b)
    case True
    with Inr show ?thesis
      by (auto simp: serve_def readU32_def split: sum.splits intro: exI [of _ 0])
  next
    case False
    with Inr have "snd (serve m f d c) = snd (writeAll [U32 m, U32 f, Buffers d, Flushed] c)"
      by (simp add: serve_writeAll)
    with writeAll_sent [of "[U32 m, U32 f, Buffers d, Flushed]" c] show ?thesis by simp
  qed
qed

lemma serveEachOnce_deleted:
  "serveEachOnce m f d cs = (st, cs', del) \<Longrightarrow> c' \<in> set del \<Longrightarrow>
   \<exists>c\<in>set cs. \<exists>k. sent c' = sent c @ take k [U32 m, U32 f, Buffers d, Flushed]"
proof (induction cs arbitrary: st cs' del)
  case Nil
  then show ?case by simp
next
  case (Cons c cs)
  obtain r c1 where sv: "serve m f d c = (r, c1)" by (cases "serve m f d c")
  obtain st2 k2 d2 where rec: "serveEachOnce m f d cs = (st2, k2, d2)" by (metis prod_cases3)
  from serve_sent [of m f d c] sv
  have c1: "\<exists>k. sent c1 = sent c @ take k [U32 m, U32 f, Buffers d, Flushed]" by simp
  have "c' = c1 \<or> c' \<in> set d2"
    using Cons.prems sv rec by (cases r; auto split: exn.splits)
  then show ?case
  proof
    assume "c' = c1" with c1 show ?thesis by auto
  next
    assume "c' \<in> set d2" from Cons.IH [OF rec this] show ?thesis by auto
  qed
qed

lemma fanout_deleted:
  assumes "length cs < 2 ^ 32" "fanout m f d cs del = (st, cs', del')" "c' \<in> set del'"
  shows "c' \<in> set del
     \<or> (\<exists>c\<in>set cs. \<exists>k. sent c' = sent c @ take k [U32 m, U32 f, Buffers d, Flushed])"
proof -
  obtain st2 k2 d2 where rec: "serveEachOnce m f d cs = (st2, k2, d2)" by (metis prod_cases3)
  with assms(1,2) have "del' = del @ d2" by (simp add: fanout_serveEachOnce)
  with serveEachOnce_deleted [OF rec] assms(3) show ?thesis by auto
qed

lemma deletedInv_fanout:
  assumes "headersInv n hs s" "deletedInv n hs s" "length (clients s) < 2 ^ 32"
    "fanout m f d (clients s) (deletedSockets s) = (st, cs, del)"
    "deletedSockets s' = del"
  shows "deletedInv n hs s'"
proof -
  have "(\<exists>k. sent c' = take k (snapshot n hs))
        \<or> (\<exists>fs k m f d. sent c' = snapshot n hs @ fs @ take k [U32 m, U32 f, Buffers d, Flushed]
              \<and> frameRecords fs)" if "c' \<in> set del" for c'
    using fanout_deleted [OF assms(3,4) that]
  proof
    assume "c' \<in> set (deletedSockets s)"
    with assms(2) show ?thesis unfolding deletedInv_def by blast
  next
    assume "\<exists>c\<in>set (clients s). \<exists>k. sent c' = sent c @ take k [U32 m, U32 f, Buffers d, Flushed]"
    then obtain c k where c: "c \<in> set (clients s)"
      "sent c' = sent c @ take k [U32 m, U32 f, Buffers d, Flushed]" by auto
    from assms(1) c(1) obtain fs where fs: "sent c = snapshot n hs @ fs" "frameRecords fs"
      by (auto simp: headersInv_def)
    have "sent c' = snapshot n hs @ fs @ take k [U32 m, U32 f, Buffers d, Flushed]"
      using c(2) fs(1) by simp
    with fs(2) show ?thesis by blast
  qed
  with assms(5) show ?thesis unfolding deletedInv_def by blast
qed

lemma colorBranch_deletedInv:
  assumes "headersInv n hs s" "deletedInv n hs s" "length (clients s) < 2 ^ 32"
  shows "deletedInv n hs (snd (snd (colorBranch i found s)))"
proof (cases i found s rule: colorBranch_cases)
  case (sent cs del)
  show ?thesis unfolding sent(4) by (rule deletedInv_fanout [OF assms sent(3)]) simp
next
  case (failed st cs del)
  show ?thesis unfolding failed(5) by (rule deletedInv_fanout [OF assms failed(3)]) simp
qed (use assms in auto)

lemma depthBranch_deletedInv:
  assumes "headersInv n hs s" "deletedInv n hs s" "length (clients s) < 2 ^ 32"
  shows "deletedInv n hs (snd (snd (depthBranch i found s)))"
proof (cases i found s rule: depthBranch_cases)
  case (sent cs del)
  show ?thesis unfolding sent(4) by (rule deletedInv_fanout [OF assms sent(3)]) simp
next
  case (failed st cs del)
  show ?thesis unfolding failed(5) by (rule deletedInv_fanout [OF assms failed(3)]) simp
qed (use assms in auto)

lemma deletedInv_streamingThread [simp]:
  "deletedInv n hs (s\<lparr>streamingThread := x\<rparr>) = deletedInv n hs s"
  by (simp add: deletedInv_def)

lemma cameraTurn_deletedInv:
  assumes "headersInv n hs s" "deletedInv n hs s" "length (clients s) < 2 ^ 32"
  shows "deletedInv n hs (snd (snd (cameraTurn i s)))"
proof -
  obtain st f1 s1 where cb: "colorBranch i False s = (st, f1, s1)" by (metis prod_cases3)
  from colorBranch_headersInv [OF assms(1,3), of i False] cb
  have 1: "headersInv n hs s1" "length (clients s1) \<le> length (clients s)" by simp_all
  from colorBranch_deletedInv [OF assms, of i False] cb have 2: "deletedInv n hs s1" by simp
  from 1 assms(3) have "length (clients s1) < 2 ^ 32" by simp
  from depthBranch_deletedInv [OF 1(1) 2 this, of i f1]
  show ?thesis using cb 2 by (cases st) (simp_all add: cameraTurn_def)
qed

lemma streamingThreadStep_deletedInv:
  assumes "headersInv n hs s" "deletedInv n hs s" "length (clients s) < 2 ^ 32"
  shows "deletedInv n hs (streamingThreadStep s)"
proof (cases "numMissingDepthFrames s > 0 \<or> numMissingColorFrames s > 0")
  case True
  obtain st f s1 where sc: "scanCameras 0 False s = (st, f, s1)" by (metis prod_cases3)
  have "deletedInv n hs s1"
  proof -
    from scanCameras_nothing_or_one_turn [of 0 s]
    consider "scanCameras 0 False s = (Completed, False, s)"
      | k where "scanCameras 0 False s = cameraTurn k s" by blast
    then show ?thesis
    proof cases
      case 1
      with sc assms(2) show ?thesis by simp
    next
      case 2
      with sc have "s1 = snd (snd (cameraTurn k s))" by simp
      with cameraTurn_deletedInv [OF assms, of k] show ?thesis by simp
    qed
  qed
  then show ?thesis
    using True sc by (cases st) (simp_all add: streamingThreadStep_def)
next
  case False
  obtain st s1 where nm: "startNewMetaFrame s = (st, s1)" by (cases "startNewMetaFrame s")
  from startNewMetaFrame_frame [of s] nm obtain cams a b where
    c: "s1 = s\<lparr>cameraStates := cams, metaFrameIndex := metaFrameIndex s + 1,
            numMissingColorFrames := a, numMissingDepthFrames := b\<rparr>" by auto
  have "deletedInv n hs s1" using assms(2) c by (simp add: deletedInv_def)
  then show ?thesis
    using False nm by (cases st) (simp_all add: streamingThreadStep_def)
qed

lemma listeningThreadStep_deletedInv:
  assumes "headersInv n hs s" "deletedInv n hs s"
  shows "deletedInv n hs (listeningThreadStep a s)"
proof (cases a)
  case (Inl e)
  with assms show ?thesis
    by (cases e) (simp_all add: listeningThreadStep_def deletedInv_def)
next
  case (Inr p)
  from assms have wf: "unat (numCameras s) \<le> length (cameraStates s)"
    by (auto simp: headersInv_def)
  from assms have hdr: "streamHeader s = snapshot n hs"
    by (auto simp: headersInv_def streamHeader_snapshot)
  obtain r sock where w: "writeAll (streamHeader s) (newTCPPipe (nextSockId s) p) = (r, sock)"
    by (cases "writeAll (streamHeader s) (newTCPPipe (nextSockId s) p)")
  from writeAll_sent [of "streamHeader s" "newTCPPipe (nextSockId s) p"] w hdr
  have "\<exists>k. sent sock = take k (snapshot n hs)"
    by (cases p) (simp add: newTCPPipe_def)
  then have new: "(\<exists>k. sent sock = take k (snapshot n hs))
      \<or> (\<exists>fs k m f d. sent sock = snapshot n hs @ fs @ take k [U32 m, U32 f, Buffers d, Flushed]
            \<and> frameRecords fs)" ..
  show ?thesis
  proof (cases r)
    case Done
    with assms(2) show ?thesis
      by (simp add: Inr listeningThreadStep_accepted [OF wf] w deletedInv_def)
  next
    case (Threw e)
    with assms(2) new show ?thesis
      by (cases e) (simp_all add: Inr listeningThreadStep_accepted [OF wf] w deletedInv_def)
  next
    case BadIndex
    with assms(2) show ?thesis
      by (simp add: Inr listeningThreadStep_accepted [OF wf] w deletedInv_def)
  qed
qed

lemma step_deletedInv:
  assumes "headersInv n hs s" "deletedInv n hs s" "length (clients s) < 2 ^ 32"
  shows "deletedInv n hs (step e s)"
proof (cases e)
  case (Connection a)
  with listeningThreadStep_deletedInv [OF assms(1,2), of a] assms(2) show ?thesis by simp
next
  case Stream
  with streamingThreadStep_deletedInv [OF assms] assms(2) show ?thesis by simp
qed (use assms(2) in \<open>auto simp: deletedInv_def\<close>)

lemma run_deletedInv:
  assumes "headersInv n hs s0" "deletedInv n hs s0" "length (clients s0) + length evs < 2 ^ 32"
  shows "deletedInv n hs (run evs s0)"
  using assms(3)
proof (induction evs rule: rev_induct)
  case Nil
  with assms(2) show ?case by (simp add: run_def)
next
  case (snoc e evs)
  then have len: "length (clients s0) + length evs < 2 ^ 32" by simp
  from run_headersInv [OF assms(1) len] snoc.prems
  have "headersInv n hs (run evs s0)" "length (clients (run evs s0)) < 2 ^ 32" by simp_all
  from step_deletedInv [OF this(1) snoc.IH [OF len] this(2), of e] show ?case
    by (simp add: run_snoc)
qed

lemma deliver_headers:
  "colorHeaders (deliver es cam) = colorHeaders cam \<and> depthHeaders (deliver es cam) = depthHeaders cam"
proof (induction es arbitrary: cam)
  case Nil
  show ?case by (simp add: deliver_Nil)
next
  case (Cons e es)
  obtain k f where e: "e = (k, f)" by (cases e)
  show ?case
    by (cases k) (simp_all add: deliver_Cons Cons.IH e streamingCallback_def
        color_cb_simps depth_cb_simps)
qed

lemma newCameraState_headers:
  "colorHeaders (newCameraState dev) = colorStreamHeader dev"
  "depthHeaders (newCameraState dev) = depthStreamHeader dev"
  "camera (newCameraState dev) = []"
  "colorFile (newCameraState dev) = []" "depthFile (newCameraState dev) = []"
  "\<not> newValue (colorFrames (newCameraState dev))"
  "\<not> newValue (depthFrames (newCameraState dev))"
  by (simp_all add: newCameraState_def storeBuffers_def emptyTripleBuffer_def)

lemma run_streamHeader:
  assumes "clients s0 = []" and "deletedSockets s0 = []"
    and "unat (numCameras s0) \<le> length (cameraStates s0)" and "length evs < 2 ^ 32"
  shows "(\<forall>c\<in>set (clients (run evs s0)).
            \<exists>fs. sent c = streamHeader s0 @ fs \<and> frameRecords fs)
       \<and> (\<forall>c\<in>set (deletedSockets (run evs s0)).
            (\<exists>k. sent c = take k (streamHeader s0))
            \<or> (\<exists>fs k m f d.
                  sent c = streamHeader s0 @ fs @ take k [U32 m, U32 f, Buffers d, Flushed]
                  \<and> frameRecords fs))
       \<and> map headerItems (cameraStates (run evs s0)) = map headerItems (cameraStates s0)
       \<and> streamHeader (run evs s0) = streamHeader s0
       \<and> numCameras (run evs s0) = numCameras s0
       \<and> colorHeaders (newCameraState dev) = colorStreamHeader dev
       \<and> depthHeaders (newCameraState dev) = depthStreamHeader dev
       \<and> camera (newCameraState dev) = []
       \<and> colorHeaders (deliver es cam) = colorHeaders cam
       \<and> depthHeaders (deliver es cam) = depthHeaders cam"
proof -
  let ?n = "numCameras s0"
  let ?hs = "map headerItems (cameraStates s0)"
  have hdr: "streamHeader s0 = snapshot ?n ?hs" by (rule streamHeader_snapshot)
  have i0: "headersInv ?n ?hs s0" using assms(1,3) by (simp add: headersInv_def)
  have d0: "deletedInv ?n ?hs s0" using assms(2) by (simp add: deletedInv_def)
  have len: "length (clients s0) + length evs < 2 ^ 32" using assms(1,4) by simp
  from run_headersInv [OF i0 len] have i: "headersInv ?n ?hs (run evs s0)" by simp
  from run_deletedInv [OF i0 d0 len] have d: "deletedInv ?n ?hs (run evs s0)" .
  have a: "\<forall>c\<in>set (clients (run evs s0)).
            \<exists>fs. sent c = streamHeader s0 @ fs \<and> frameRecords fs"
    using i unfolding headersInv_def hdr by blast
  have b: "\<forall>c\<in>set (deletedSockets (run evs s0)).
            (\<exists>k. sent c = take k (streamHeader s0))
            \<or> (\<exists>fs k m f d.
                  sent c = streamHeader s0 @ fs @ take k [U32 m, U32 f, Buffers d, Flushed]
                  \<and> frameRecords fs)"
    using d unfolding deletedInv_def hdr by blast
  have c: "map headerItems (cameraStates (run evs s0)) = ?hs"
    "numCameras (run evs s0) = ?n"
    using i by (simp_all add: headersInv_def)
  have e: "streamHeader (run evs s0) = streamHeader s0"
    by (simp add: streamHeader_snapshot c)
  from a b c e newCameraState_headers(1-3) [of dev] deliver_headers [of es cam]
  show ?thesis by blast
qed

lemma map_headerItems_fields:
  assumes "map headerItems xs = map headerItems ys"
  shows "map colorHeaders xs = map colorHeaders ys" "map depthHeaders xs = map depthHeaders ys"
proof -
  have c: "colorHeaders = (\<lambda>is. case is ! 0 of Buffers b \<Rightarrow> b | _ \<Rightarrow> []) \<circ> headerItems"
    by (rule ext) (simp add: headerItems_def)
  have d: "depthHeaders = (\<lambda>is. case is ! 1 of Buffers b \<Rightarrow> b | _ \<Rightarrow> []) \<circ> headerItems"
    by (rule ext) (simp add: headerItems_def)
  show "map colorHeaders xs = map colorHeaders ys"
    by (subst (1 2) c) (simp only: map_map [symmetric] assms)
  show "map depthHeaders xs = map depthHeaders ys"
    by (subst (1 2) d) (simp only: map_map [symmetric] assms)
qed

text \<open>
  C3. Start from a server without sockets, as the constructor leaves it, and let any fewer
  than \<open>2^32\<close> events happen. Let \<open>hdr\<close> be the magic number, the camera count, for each
  camera in index order its color stream header, its depth stream header and its three
  calibration items, and the flush, with the cameras as they are at the start. Then every
  client in the list has been sent \<open>hdr\<close>, which holds each camera's color and depth stream
  headers once, followed by complete frame records and nothing else; every deleted socket
  has been sent an initial part of \<open>hdr\<close>, or \<open>hdr\<close> followed by frame records, the last one
  possibly cut short. So on no socket does a frame item come before the stream headers or
  do the headers come twice. The camera count and the stream headers of the cameras are
  the same in every state of the run, so the same sequence is what a later client is sent;
  a camera state's headers are the stream headers its compressors emitted when it was
  constructed, before \<^verbatim>\<open>startStreaming\<close> and before any frame was written to the memory
  files, and no callback changes them.
\<close>

theorem stream_headers_once_before_frames:
  assumes "clients s0 = []" and "deletedSockets s0 = []"
    and "unat (numCameras s0) \<le> length (cameraStates s0)" and "length evs < 2 ^ 32"
    and "hdr =
       [U32 0x12345678, U32 (numCameras s0)]
         @ concat (map (\<lambda>cam. [Buffers (colorHeaders cam), Buffers (depthHeaders cam),
                               PTransform (colorProjection cam),
                               PTransform (depthProjection cam),
                               Extrinsic (extrinsicParameters cam)])
                     (take (unat (numCameras s0)) (cameraStates s0)))
         @ [Flushed]"
  shows "(\<forall>c\<in>set (clients (run evs s0)).
            \<exists>fs. sent c = hdr @ fs \<and> frameRecords fs)
       \<and> (\<forall>c\<in>set (deletedSockets (run evs s0)).
            (\<exists>k. sent c = take k hdr)
            \<or> (\<exists>fs k m f d.
                  sent c = hdr @ fs @ take k [U32 m, U32 f, Buffers d, Flushed]
                  \<and> frameRecords fs))
       \<and> numCameras (run evs s0) = numCameras s0
       \<and> map colorHeaders (cameraStates (run evs s0)) = map colorHeaders (cameraStates s0)
       \<and> map depthHeaders (cameraStates (run evs s0)) = map depthHeaders (cameraStates s0)
       \<and> hdr =
       [U32 0x12345678, U32 (numCameras (run evs s0))]
         @ concat (map (\<lambda>cam. [Buffers (colorHeaders cam), Buffers (depthHeaders cam),
                               PTransform (colorProjection cam),
                               PTransform (depthProjection cam),
                               Extrinsic (extrinsicParameters cam)])
                     (take (unat (numCameras (run evs s0))) (cameraStates (run evs s0))))
         @ [Flushed]
       \<and> colorHeaders (newCameraState dev) = colorStreamHeader dev
       \<and> depthHeaders (newCameraState dev) = depthStreamHeader dev
       \<and> camera (newCameraState dev) = []
       \<and> colorHeaders (deliver es cam) = colorHeaders cam
       \<and> depthHeaders (deliver es cam) = depthHeaders cam"
proof -
  have h: "hdr = streamHeader s0" by (simp only: assms(5) streamHeader_items)
  note r = run_streamHeader [OF assms(1-4), of dev es cam]
  from r have m: "map headerItems (cameraStates (run evs s0)) = map headerItems (cameraStates s0)"
    and e: "streamHeader (run evs s0) = streamHeader s0" by simp_all
  from e have h': "hdr = streamHeader (run evs s0)" by (simp only: h)
  note f = map_headerItems_fields [OF m]
  have 1: "\<forall>c\<in>set (clients (run evs s0)). \<exists>fs. sent c = hdr @ fs \<and> frameRecords fs"
    using r unfolding h by blast
  have 2: "\<forall>c\<in>set (deletedSockets (run evs s0)).
            (\<exists>k. sent c = take k hdr)
            \<or> (\<exists>fs k m f d.
                  sent c = hdr @ fs @ take k [U32 m, U32 f, Buffers d, Flushed]
                  \<and> frameRecords fs)"
    using r unfolding h by blast
  have 3: "numCameras (run evs s0) = numCameras s0" using r by blast
  have 4: "colorHeaders (newCameraState dev) = colorStreamHeader dev"
    "depthHeaders (newCameraState dev) = depthStreamHeader dev"
    "camera (newCameraState dev) = []"
    "colorHeaders (deliver es cam) = colorHeaders cam"
    "depthHeaders (deliver es cam) = depthHeaders cam"
    using r by blast+
  from 1 2 3 f 4 h' [unfolded streamHeader_items] show ?thesis by (intro conjI)
qed

text \<open>
  An instance, on the server whose two cameras differ in every header item: a client
  connects, camera 1 commits a color frame, and the streaming thread sends it.
\<close>

theorem stream_headers_once_before_frames_witness:
  "clients stereoServer = [] \<and> deletedSockets stereoServer = []
   \<and> unat (numCameras stereoServer) \<le> length (cameraStates stereoServer)
   \<and> clients (run [Connection (Inr quietPeer), ColorFrame 1 frame0, Stream] stereoServer) \<noteq> []
   \<and> (\<exists>fs. sent (hd (clients
              (run [Connection (Inr quietPeer), ColorFrame 1 frame0, Stream] stereoServer)))
            = [U32 0x12345678, U32 2,
               Buffers [1], Buffers [2], PTransform 1, PTransform 2, Extrinsic 3,
               Buffers [3], Buffers [4], PTransform 4, PTransform 5, Extrinsic 6,
               Flushed] @ fs
          \<and> frameRecords fs)
   \<and> sent (hd (clients
              (run [Connection (Inr quietPeer), ColorFrame 1 frame0, Stream] stereoServer)))
        = [U32 0x12345678, U32 2,
           Buffers [1], Buffers [2], PTransform 1, PTransform 2, Extrinsic 3,
           Buffers [3], Buffers [4], PTransform 4, PTransform 5, Extrinsic 6,
           Flushed,
           U32 0, U32 2, Buffers [7], Flushed]"
proof -
  let ?evs = "[Connection (Inr quietPeer), ColorFrame 1 frame0, Stream]"
  let ?hdr = "[U32 0x12345678, U32 2,
               Buffers [1], Buffers [2], PTransform 1, PTransform 2, Extrinsic 3,
               Buffers [3], Buffers [4], PTransform 4, PTransform 5, Extrinsic 6,
               Flushed]"
  have h1: "clients stereoServer = []" by code_simp
  have h2: "deletedSockets stereoServer = []" by code_simp
  have h3: "unat (numCameras stereoServer) \<le> length (cameraStates stereoServer)"
    by code_simp
  have h4: "length ?evs < 2 ^ 32" by simp
  have h5: "?hdr =
       [U32 0x12345678, U32 (numCameras stereoServer)]
         @ concat (map (\<lambda>cam. [Buffers (colorHeaders cam), Buffers (depthHeaders cam),
                               PTransform (colorProjection cam),
                               PTransform (depthProjection cam),
                               Extrinsic (extrinsicParameters cam)])
                     (take (unat (numCameras stereoServer)) (cameraStates stereoServer)))
         @ [Flushed]"
    by code_simp
  have ne: "clients (run ?evs stereoServer) \<noteq> []" by code_simp
  then have "hd (clients (run ?evs stereoServer)) \<in> set (clients (run ?evs stereoServer))"
    by simp
  with stream_headers_once_before_frames [OF h1 h2 h3 h4 h5]
  have A: "\<exists>fs. sent (hd (clients (run ?evs stereoServer))) = ?hdr @ fs \<and> frameRecords fs"
    by blast
  have B: "sent (hd (clients (run ?evs stereoServer)))
        = [U32 0x12345678, U32 2,
           Buffers [1], Buffers [2], PTransform 1, PTransform 2, Extrinsic 3,
           Buffers [3], Buffers [4], PTransform 4, PTransform 5, Extrinsic 6,
           Flushed,
           U32 0, U32 2, Buffers [7], Flushed]"
    by code_simp
  from h1 h2 h3 ne A B show ?thesis by (intro conjI)
qed

subsection \<open>Each frame once per meta-frame\<close>

text \<open>
  Writing a frame record to every client extends the records of each socket that stays in
  the list by that one record; setting a flag adds the frame's identifier to the set flags.
\<close>

lemma records_append:
  "frameRecords xs \<Longrightarrow> records (xs @ ys) = records xs @ records ys"
  by (induction xs rule: frameRecords.induct) auto

lemma records_one [simp]: "records [U32 m, U32 f, Buffers d, Flushed] = [(m, f)]"
  by simp

lemma duringMetaFrame_snoc:
  "duringMetaFrame m (evs @ [e]) s \<longleftrightarrow>
     duringMetaFrame m evs s \<and> metaFrameIndex (run (evs @ [e]) s) = m"
  by (induction evs arbitrary: s) (auto simp: run_def)

lemma filter_update_True:
  "k < length xs \<Longrightarrow> P (xs ! k) \<Longrightarrow> \<not> P y \<Longrightarrow>
   length (filter P (xs[k := y])) = length (filter P xs) - 1 \<and> 0 < length (filter P xs)"
proof (induction xs arbitrary: k)
  case Nil
  then show ?case by simp
next
  case (Cons x xs)
  show ?case
  proof (cases k)
    case 0
    with Cons.prems show ?thesis by simp
  next
    case (Suc k')
    with Cons.prems Cons.IH [of k'] show ?thesis by auto
  qed
qed

lemma filter_update_same:
  "k < length xs \<Longrightarrow> P y = P (xs ! k) \<Longrightarrow>
   length (filter P (xs[k := y])) = length (filter P xs)"
proof (induction xs arbitrary: k)
  case Nil
  then show ?case by simp
next
  case (Cons x xs)
  show ?case
  proof (cases k)
    case 0
    with Cons.prems show ?thesis by simp
  next
    case (Suc k')
    with Cons.prems Cons.IH [of k'] show ?thesis by auto
  qed
qed

lemma double_inj:
  fixes i k :: u32
  assumes "unat i < 2 ^ 31" "unat k < 2 ^ 31" "i * 2 = k * 2"
  shows "i = k"
proof -
  have "unat (i * 2) = unat i * 2" "unat (k * 2) = unat k * 2"
    using assms(1,2) by (simp_all add: unat_word_ariths)
  with assms(3) have "unat i = unat k" by simp
  then show ?thesis by (simp add: word_unat_eq_iff)
qed

lemma double_parity:
  fixes i k :: u32
  shows "i * 2 + 1 \<noteq> k * 2"
proof
  assume "i * 2 + 1 = k * 2"
  then have "even (i * 2 + 1)" by simp
  then show False by simp
qed


lemma colorSent_update:
  fixes i :: u32
  assumes "unat i < length cams"
  shows "colorSent (cams[unat i := c]) =
     (if hasSentColorFrame c then insert i (colorSent cams) else colorSent cams - {i})"
proof -
  have "j \<in> colorSent (cams[unat i := c]) \<longleftrightarrow>
      j \<in> (if hasSentColorFrame c then insert i (colorSent cams) else colorSent cams - {i})"
    for j :: u32
  proof (cases "j = i")
    case True
    with assms show ?thesis by (simp add: colorSent_def)
  next
    case False
    then have "unat j \<noteq> unat i" by (simp add: word_unat_eq_iff)
    with False show ?thesis by (simp add: colorSent_def)
  qed
  then show ?thesis by blast
qed

lemma depthSent_update:
  fixes i :: u32
  assumes "unat i < length cams"
  shows "depthSent (cams[unat i := c]) =
     (if hasSentDepthFrame c then insert i (depthSent cams) else depthSent cams - {i})"
proof -
  have "j \<in> depthSent (cams[unat i := c]) \<longleftrightarrow>
      j \<in> (if hasSentDepthFrame c then insert i (depthSent cams) else depthSent cams - {i})"
    for j :: u32
  proof (cases "j = i")
    case True
    with assms show ?thesis by (simp add: depthSent_def)
  next
    case False
    then have "unat j \<noteq> unat i" by (simp add: word_unat_eq_iff)
    with False show ?thesis by (simp add: depthSent_def)
  qed
  then show ?thesis by blast
qed

lemma colorSent_same:
  fixes i :: u32
  assumes "unat i < length cams" "hasSentColorFrame c = hasSentColorFrame (cams ! unat i)"
  shows "colorSent (cams[unat i := c]) = colorSent cams"
proof (cases "hasSentColorFrame c")
  case True
  with assms have "i \<in> colorSent cams" by (simp add: colorSent_def)
  with True assms(1) show ?thesis by (auto simp: colorSent_update)
next
  case False
  with assms have "i \<notin> colorSent cams" by (simp add: colorSent_def)
  with False assms(1) show ?thesis by (simp add: colorSent_update)
qed

lemma depthSent_same:
  fixes i :: u32
  assumes "unat i < length cams" "hasSentDepthFrame c = hasSentDepthFrame (cams ! unat i)"
  shows "depthSent (cams[unat i := c]) = depthSent cams"
proof (cases "hasSentDepthFrame c")
  case True
  with assms have "i \<in> depthSent cams" by (simp add: depthSent_def)
  with True assms(1) show ?thesis by (auto simp: depthSent_update)
next
  case False
  with assms have "i \<notin> depthSent cams" by (simp add: depthSent_def)
  with False assms(1) show ?thesis by (simp add: depthSent_update)
qed

lemma sentIds_color:
  fixes i :: u32
  assumes "unat i < length cams"
  shows "sentIds (cams[unat i := (cams ! unat i)\<lparr>colorFrames := tb, hasSentColorFrame := True\<rparr>])
       = insert (i * 2 + 0) (sentIds cams)"
proof -
  let ?c = "(cams ! unat i)\<lparr>colorFrames := tb, hasSentColorFrame := True\<rparr>"
  have 1: "colorSent (cams[unat i := ?c]) = insert i (colorSent cams)"
    using assms by (simp add: colorSent_update)
  have 2: "depthSent (cams[unat i := ?c]) = depthSent cams"
    using assms by (intro depthSent_same) simp_all
  show ?thesis unfolding sentIds_def 1 2 by (simp only: image_insert Un_insert_left)
qed

lemma sentIds_depth:
  fixes i :: u32
  assumes "unat i < length cams"
  shows "sentIds (cams[unat i := (cams ! unat i)\<lparr>depthFrames := tb, hasSentDepthFrame := True\<rparr>])
       = insert (i * 2 + 1) (sentIds cams)"
proof -
  let ?c = "(cams ! unat i)\<lparr>depthFrames := tb, hasSentDepthFrame := True\<rparr>"
  have 1: "depthSent (cams[unat i := ?c]) = insert i (depthSent cams)"
    using assms by (simp add: depthSent_update)
  have 2: "colorSent (cams[unat i := ?c]) = colorSent cams"
    using assms by (intro colorSent_same) simp_all
  show ?thesis unfolding sentIds_def 1 2 by (simp only: image_insert Un_insert_right)
qed

lemma sentIds_fresh_color:
  fixes i :: u32
  assumes "unat i < length cams" "length cams \<le> 2 ^ 31" "\<not> hasSentColorFrame (cams ! unat i)"
  shows "i * 2 + 0 \<notin> sentIds cams"
proof
  assume "i * 2 + 0 \<in> sentIds cams"
  then have "i * 2 + 0 \<in> (\<lambda>i. i * 2 + 0) ` colorSent cams
      \<or> i * 2 + 0 \<in> (\<lambda>i. i * 2 + 1) ` depthSent cams"
    unfolding sentIds_def by (rule UnE) (rule disjI1, assumption, rule disjI2, assumption)
  then show False
  proof
    assume "i * 2 + 0 \<in> (\<lambda>i. i * 2 + 0) ` colorSent cams"
    then obtain j where j: "i * 2 + 0 = j * 2 + 0" "j \<in> colorSent cams" by (rule imageE)
    from j(2) have jj: "unat j < length cams" "hasSentColorFrame (cams ! unat j)"
      by (simp_all add: colorSent_def)
    have "unat i < 2 ^ 31" "unat j < 2 ^ 31" using assms(1,2) jj(1) by simp_all
    moreover from j(1) have "i * 2 = j * 2" by simp
    ultimately have "i = j" by (rule double_inj)
    with jj assms(3) show False by simp
  next
    assume "i * 2 + 0 \<in> (\<lambda>i. i * 2 + 1) ` depthSent cams"
    then obtain j where "i * 2 + 0 = j * 2 + 1" "j \<in> depthSent cams" by (rule imageE)
    then have "j * 2 + 1 = i * 2" by simp
    then show False using double_parity [of j i] by simp
  qed
qed

lemma sentIds_fresh_depth:
  fixes i :: u32
  assumes "unat i < length cams" "length cams \<le> 2 ^ 31" "\<not> hasSentDepthFrame (cams ! unat i)"
  shows "i * 2 + 1 \<notin> sentIds cams"
proof
  assume "i * 2 + 1 \<in> sentIds cams"
  then have "i * 2 + 1 \<in> (\<lambda>i. i * 2 + 0) ` colorSent cams
      \<or> i * 2 + 1 \<in> (\<lambda>i. i * 2 + 1) ` depthSent cams"
    unfolding sentIds_def by (rule UnE) (rule disjI1, assumption, rule disjI2, assumption)
  then show False
  proof
    assume "i * 2 + 1 \<in> (\<lambda>i. i * 2 + 1) ` depthSent cams"
    then obtain j where j: "i * 2 + 1 = j * 2 + 1" "j \<in> depthSent cams" by (rule imageE)
    from j(2) have jj: "unat j < length cams" "hasSentDepthFrame (cams ! unat j)"
      by (simp_all add: depthSent_def)
    have "unat i < 2 ^ 31" "unat j < 2 ^ 31" using assms(1,2) jj(1) by simp_all
    moreover from j(1) have "i * 2 = j * 2" by simp
    ultimately have "i = j" by (rule double_inj)
    with jj assms(3) show False by simp
  next
    assume "i * 2 + 1 \<in> (\<lambda>i. i * 2 + 0) ` colorSent cams"
    then obtain j where "i * 2 + 1 = j * 2 + 0" "j \<in> colorSent cams" by (rule imageE)
    then have "i * 2 + 1 = j * 2" by simp
    then show False using double_parity [of i j] by simp
  qed
qed

lemma serveEachOnce_ids:
  "serveEachOnce m f d cs = (st, cs', del) \<Longrightarrow> distinct (map sockId cs) \<Longrightarrow>
   distinct (map sockId cs') \<and> set (map sockId cs') \<subseteq> set (map sockId cs)"
proof (induction cs arbitrary: st cs' del)
  case Nil
  then show ?case by simp
next
  case (Cons c cs)
  obtain r c1 where sv: "serve m f d c = (r, c1)" by (cases "serve m f d c")
  obtain st2 k2 d2 where rec: "serveEachOnce m f d cs = (st2, k2, d2)" by (metis prod_cases3)
  have id1: "sockId c1 = sockId c" using serve_sockId [of m f d c] sv by simp
  from Cons.prems(2) have dc: "distinct (map sockId cs)" "sockId c \<notin> set (map sockId cs)"
    by simp_all
  from Cons.IH [OF rec dc(1)] have IH: "distinct (map sockId k2)"
    "set (map sockId k2) \<subseteq> set (map sockId cs)" by simp_all
  show ?case
  proof (cases r)
    case Written
    with Cons.prems(1) sv rec have "cs' = c1 # k2" by simp
    with IH dc id1 show ?thesis by auto
  next
    case Requested
    with Cons.prems(1) sv rec have "cs' = k2" by simp
    with IH show ?thesis by auto
  next
    case (Raised e)
    show ?thesis
    proof (cases e)
      case RuntimeError
      with Raised Cons.prems(1) sv rec have "cs' = k2" by simp
      with IH show ?thesis by auto
    next
      case OtherException
      with Raised Cons.prems(1) sv have "cs' = cs" by simp
      with dc show ?thesis by auto
    qed
  qed
qed

lemma fanout_ids:
  assumes "length cs < 2 ^ 32" "fanout m f d cs del = (st, cs', del')" "distinct (map sockId cs)"
  shows "distinct (map sockId cs') \<and> set (map sockId cs') \<subseteq> set (map sockId cs)"
proof -
  obtain st2 k2 d2 where rec: "serveEachOnce m f d cs = (st2, k2, d2)" by (metis prod_cases3)
  with assms(1,2) have "cs' = k2" by (simp add: fanout_serveEachOnce)
  with serveEachOnce_ids [OF rec assms(3)] show ?thesis by simp
qed

lemma fanout_Completed_clients:
  assumes "length cs < 2 ^ 32" "fanout m f d cs del = (Completed, cs', del')" "c' \<in> set cs'"
  shows "\<exists>c\<in>set cs. sockId c' = sockId c
      \<and> sent c' = sent c @ [U32 m, U32 f, Buffers d, Flushed]"
proof -
  have st: "fst (serveEachOnce m f d cs) = Completed"
    using assms(1,2) by (simp add: fanout_serveEachOnce split: prod.splits)
  then have "\<not> (\<exists>c\<in>set cs. spurious m f d c)"
    using serveEachOnce_Rethrown_iff [of m f d cs] by simp
  then have "serveEachOnce m f d cs = (Completed, keptOf m f d cs, removedOf m f d cs)"
    by (intro serveEachOnce_no_spurious) simp
  with assms(1,2) have "cs' = keptOf m f d cs" by (simp add: fanout_serveEachOnce)
  with assms(3) obtain c where c: "c \<in> set cs" "fst (serve m f d c) = Written"
    "c' = snd (serve m f d c)" by (auto simp: keptOf_def)
  then have "serve m f d c = (Written, c')" by (metis prod.collapse)
  from serve_Written_sent [OF this] serve_sockId [of m f d c] c show ?thesis by auto
qed

lemma clientInv_extend:
  assumes "clientInv p log0 m s" "length (clients s) < 2 ^ 32"
    "fanout m fid d (clients s) (deletedSockets s) = (Completed, cs, del)"
    "fid \<notin> sentIds (cameraStates s)"
    "sentIds (cameraStates s') = insert fid (sentIds (cameraStates s))"
    "clients s' = cs"
  shows "clientInv p log0 m s'"
proof -
  have "\<exists>fs. sent c' = log0 @ fs \<and> frameRecords fs
           \<and> (\<forall>r\<in>set (records fs). fst r = m)
           \<and> distinct (map snd (records fs))
           \<and> set (map snd (records fs)) = sentIds (cameraStates s')"
    if "c' \<in> set cs" "p = Some (sockId c')" for c'
  proof -
    from fanout_Completed_clients [OF assms(2,3) that(1)] obtain c where
      c: "c \<in> set (clients s)" "sockId c' = sockId c"
        "sent c' = sent c @ [U32 m, U32 fid, Buffers d, Flushed]" by auto
    with that(2) assms(1) obtain fs where
      fs: "sent c = log0 @ fs" "frameRecords fs" "\<forall>r\<in>set (records fs). fst r = m"
        "distinct (map snd (records fs))" "set (map snd (records fs)) = sentIds (cameraStates s)"
      unfolding clientInv_def by force
    let ?fs = "fs @ [U32 m, U32 fid, Buffers d, Flushed]"
    have r: "records ?fs = records fs @ [(m, fid)]"
      using fs(2) by (simp add: records_append)
    have "sent c' = log0 @ ?fs" using c(3) fs(1) by simp
    moreover have "frameRecords ?fs" using fs(2) by (simp add: frameRecords_append)
    moreover have "\<forall>r\<in>set (records ?fs). fst r = m" using fs(3) by (simp add: r)
    moreover have "distinct (map snd (records ?fs))"
      using fs(4,5) assms(4) by (simp add: r)
    moreover have "set (map snd (records ?fs)) = sentIds (cameraStates s')"
      using fs(5) assms(5) by (simp add: r)
    ultimately show ?thesis by blast
  qed
  with assms(6) show ?thesis unfolding clientInv_def by blast
qed

lemma socketsInv_fanout:
  assumes "socketsInv p s" "length (clients s) < 2 ^ 32"
    "fanout m fid d (clients s) (deletedSockets s) = (st, cs, del)"
    "clients s' = cs" "nextSockId s' = nextSockId s"
  shows "socketsInv p s' \<and> length (clients s') \<le> length (clients s)"
proof -
  from assms(1) have d: "distinct (map sockId (clients s))" by (simp add: socketsInv_def)
  from fanout_ids [OF assms(2,3) d] have
    1: "distinct (map sockId cs)" "set (map sockId cs) \<subseteq> set (map sockId (clients s))"
    by simp_all
  have "sockId c < nextSockId s" if "c \<in> set cs" for c
  proof -
    from that 1(2) have "sockId c \<in> sockId ` set (clients s)" by auto
    with assms(1) show ?thesis by (auto simp: socketsInv_def)
  qed
  with 1(1) assms(1,4,5) fanout_length [OF assms(2,3)] show ?thesis
    by (simp add: socketsInv_def)
qed

lemma unat_pred: "0 < unat (n :: u32) \<Longrightarrow> unat (n - 1) = unat n - 1"
  by unat_arith

lemma colorBranch_meta:
  assumes wf: "wfInv n s" and so: "socketsInv p s" and len: "length (clients s) < 2 ^ 32"
    and cb: "colorBranch i f s = (st, f', s1)"
  shows "wfInv n s1 \<and> socketsInv p s1 \<and> length (clients s1) \<le> length (clients s)
       \<and> metaFrameIndex s1 = metaFrameIndex s \<and> streamingThread s1 = streamingThread s
       \<and> nextSockId s1 = nextSockId s
       \<and> (countersInv s \<and> clientInv p log0 (metaFrameIndex s) s \<and> st = Completed \<longrightarrow>
            countersInv s1 \<and> clientInv p log0 (metaFrameIndex s) s1)"
proof (cases i f s rule: colorBranch_cases)
  case bad
  with cb wf so show ?thesis by simp
next
  case idle
  with cb wf so show ?thesis by simp
next
  case (sent cs del)
  let ?cam = "cameraStates s ! unat i"
  let ?tb = "(colorFrames ?cam)\<lparr>lockedValue := postedValue (colorFrames ?cam), newValue := False\<rparr>"
  let ?cams = "(cameraStates s)[unat i := ?cam\<lparr>colorFrames := ?tb, hasSentColorFrame := True\<rparr>]"
  from sent(4) cb have s1: "s1 = s\<lparr>cameraStates := ?cams, clients := cs, deletedSockets := del,
      numMissingColorFrames := numMissingColorFrames s - 1\<rparr>" and st: "st = Completed"
    by simp_all
  from wf have l31: "length (cameraStates s) \<le> 2 ^ 31" by (simp add: wfInv_def)
  from sent(2) have unsent: "\<not> hasSentColorFrame ?cam" by (simp add: colorReady_def)
  have A: "wfInv n s1" using wf by (simp add: s1 wfInv_def)
  have B: "socketsInv p s1 \<and> length (clients s1) \<le> length (clients s)"
    by (rule socketsInv_fanout [OF so len sent(3)]) (simp_all add: s1)
  have C: "countersInv s1 \<and> clientInv p log0 (metaFrameIndex s) s1"
    if ci: "countersInv s" "clientInv p log0 (metaFrameIndex s) s"
  proof
    from filter_update_True [of "unat i" "cameraStates s" "\<lambda>cam. \<not> hasSentColorFrame cam"
        "?cam\<lparr>colorFrames := ?tb, hasSentColorFrame := True\<rparr>"] sent(1) unsent
    have f: "length (filter (\<lambda>cam. \<not> hasSentColorFrame cam) ?cams)
        = length (filter (\<lambda>cam. \<not> hasSentColorFrame cam) (cameraStates s)) - 1"
      "0 < length (filter (\<lambda>cam. \<not> hasSentColorFrame cam) (cameraStates s))" by simp_all
    from filter_update_same [of "unat i" "cameraStates s" "\<lambda>cam. \<not> hasSentDepthFrame cam"
        "?cam\<lparr>colorFrames := ?tb, hasSentColorFrame := True\<rparr>"] sent(1)
    have g: "length (filter (\<lambda>cam. \<not> hasSentDepthFrame cam) ?cams)
        = length (filter (\<lambda>cam. \<not> hasSentDepthFrame cam) (cameraStates s))" by simp
    from ci(1) f(2) have "0 < unat (numMissingColorFrames s)" by (simp add: countersInv_def)
    from unat_pred [OF this] ci(1) f(1) g show "countersInv s1"
      by (simp add: s1 countersInv_def)
    show "clientInv p log0 (metaFrameIndex s) s1"
    proof (rule clientInv_extend [OF ci(2) len sent(3)])
      show "i * 2 + 0 \<notin> sentIds (cameraStates s)"
        using sent(1) l31 unsent by (rule sentIds_fresh_color)
      show "sentIds (cameraStates s1) = insert (i * 2 + 0) (sentIds (cameraStates s))"
        using sentIds_color [OF sent(1)] by (simp add: s1)
      show "clients s1 = cs" by (simp add: s1)
    qed
  qed
  from A B C show ?thesis by (simp add: s1)
next
  case (failed st' cs del)
  let ?cam = "cameraStates s ! unat i"
  let ?tb = "(colorFrames ?cam)\<lparr>lockedValue := postedValue (colorFrames ?cam), newValue := False\<rparr>"
  from failed(5) cb have s1: "s1 = s\<lparr>cameraStates := (cameraStates s)[unat i := ?cam\<lparr>colorFrames := ?tb\<rparr>],
      clients := cs, deletedSockets := del\<rparr>" and st: "st = st'" by simp_all
  have A: "wfInv n s1" using wf by (simp add: s1 wfInv_def)
  have B: "socketsInv p s1 \<and> length (clients s1) \<le> length (clients s)"
    by (rule socketsInv_fanout [OF so len failed(3)]) (simp_all add: s1)
  from A B failed(4) st show ?thesis by (simp add: s1)
qed

lemma depthBranch_meta:
  assumes wf: "wfInv n s" and so: "socketsInv p s" and len: "length (clients s) < 2 ^ 32"
    and cb: "depthBranch i f s = (st, f', s1)"
  shows "wfInv n s1 \<and> socketsInv p s1 \<and> length (clients s1) \<le> length (clients s)
       \<and> metaFrameIndex s1 = metaFrameIndex s \<and> streamingThread s1 = streamingThread s
       \<and> nextSockId s1 = nextSockId s
       \<and> (countersInv s \<and> clientInv p log0 (metaFrameIndex s) s \<and> st = Completed \<longrightarrow>
            countersInv s1 \<and> clientInv p log0 (metaFrameIndex s) s1)"
proof (cases i f s rule: depthBranch_cases)
  case bad
  with cb wf so show ?thesis by simp
next
  case idle
  with cb wf so show ?thesis by simp
next
  case (sent cs del)
  let ?cam = "cameraStates s ! unat i"
  let ?tb = "(depthFrames ?cam)\<lparr>lockedValue := postedValue (depthFrames ?cam), newValue := False\<rparr>"
  let ?cams = "(cameraStates s)[unat i := ?cam\<lparr>depthFrames := ?tb, hasSentDepthFrame := True\<rparr>]"
  from sent(4) cb have s1: "s1 = s\<lparr>cameraStates := ?cams, clients := cs, deletedSockets := del,
      numMissingDepthFrames := numMissingDepthFrames s - 1\<rparr>" and st: "st = Completed"
    by simp_all
  from wf have l31: "length (cameraStates s) \<le> 2 ^ 31" by (simp add: wfInv_def)
  from sent(2) have unsent: "\<not> hasSentDepthFrame ?cam" by (simp add: depthReady_def)
  have A: "wfInv n s1" using wf by (simp add: s1 wfInv_def)
  have B: "socketsInv p s1 \<and> length (clients s1) \<le> length (clients s)"
    by (rule socketsInv_fanout [OF so len sent(3)]) (simp_all add: s1)
  have C: "countersInv s1 \<and> clientInv p log0 (metaFrameIndex s) s1"
    if ci: "countersInv s" "clientInv p log0 (metaFrameIndex s) s"
  proof
    from filter_update_True [of "unat i" "cameraStates s" "\<lambda>cam. \<not> hasSentDepthFrame cam"
        "?cam\<lparr>depthFrames := ?tb, hasSentDepthFrame := True\<rparr>"] sent(1) unsent
    have f: "length (filter (\<lambda>cam. \<not> hasSentDepthFrame cam) ?cams)
        = length (filter (\<lambda>cam. \<not> hasSentDepthFrame cam) (cameraStates s)) - 1"
      "0 < length (filter (\<lambda>cam. \<not> hasSentDepthFrame cam) (cameraStates s))" by simp_all
    from filter_update_same [of "unat i" "cameraStates s" "\<lambda>cam. \<not> hasSentColorFrame cam"
        "?cam\<lparr>depthFrames := ?tb, hasSentDepthFrame := True\<rparr>"] sent(1)
    have g: "length (filter (\<lambda>cam. \<not> hasSentColorFrame cam) ?cams)
        = length (filter (\<lambda>cam. \<not> hasSentColorFrame cam) (cameraStates s))" by simp
    from ci(1) f(2) have "0 < unat (numMissingDepthFrames s)" by (simp add: countersInv_def)
    from unat_pred [OF this] ci(1) f(1) g show "countersInv s1"
      by (simp add: s1 countersInv_def)
    show "clientInv p log0 (metaFrameIndex s) s1"
    proof (rule clientInv_extend [OF ci(2) len sent(3)])
      show "i * 2 + 1 \<notin> sentIds (cameraStates s)"
        using sent(1) l31 unsent by (rule sentIds_fresh_depth)
      show "sentIds (cameraStates s1) = insert (i * 2 + 1) (sentIds (cameraStates s))"
        using sentIds_depth [OF sent(1)] by (simp add: s1)
      show "clients s1 = cs" by (simp add: s1)
    qed
  qed
  from A B C show ?thesis by (simp add: s1)
next
  case (failed st' cs del)
  let ?cam = "cameraStates s ! unat i"
  let ?tb = "(depthFrames ?cam)\<lparr>lockedValue := postedValue (depthFrames ?cam), newValue := False\<rparr>"
  from failed(5) cb have s1: "s1 = s\<lparr>cameraStates := (cameraStates s)[unat i := ?cam\<lparr>depthFrames := ?tb\<rparr>],
      clients := cs, deletedSockets := del\<rparr>" and st: "st = st'" by simp_all
  have A: "wfInv n s1" using wf by (simp add: s1 wfInv_def)
  have B: "socketsInv p s1 \<and> length (clients s1) \<le> length (clients s)"
    by (rule socketsInv_fanout [OF so len failed(3)]) (simp_all add: s1)
  from A B failed(4) st show ?thesis by (simp add: s1)
qed

text \<open>The scan, the callbacks and the listening thread keep what holds within a meta-frame.\<close>

lemma wfInv_thread [simp]: "wfInv n (s\<lparr>streamingThread := x\<rparr>) = wfInv n s"
  by (simp add: wfInv_def)

lemma socketsInv_thread [simp]: "socketsInv p (s\<lparr>streamingThread := x\<rparr>) = socketsInv p s"
  by (simp add: socketsInv_def)

lemma cameraTurn_meta:
  assumes wf: "wfInv n s" and so: "socketsInv p s" and len: "length (clients s) < 2 ^ 32"
    and ct: "cameraTurn i s = (st, f', s2)"
  shows "wfInv n s2 \<and> socketsInv p s2 \<and> length (clients s2) \<le> length (clients s)
       \<and> metaFrameIndex s2 = metaFrameIndex s \<and> streamingThread s2 = streamingThread s
       \<and> nextSockId s2 = nextSockId s
       \<and> (countersInv s \<and> clientInv p log0 (metaFrameIndex s) s \<and> st = Completed \<longrightarrow>
            countersInv s2 \<and> clientInv p log0 (metaFrameIndex s) s2)"
proof -
  obtain st1 f1 s1 where cb: "colorBranch i False s = (st1, f1, s1)" by (metis prod_cases3)
  note c = colorBranch_meta [OF wf so len cb, of log0]
  show ?thesis
  proof (cases "st1 = Completed")
    case False
    with ct cb have "st = st1" "s2 = s1" by (cases st1; simp add: cameraTurn_def)+
    with c False show ?thesis by simp
  next
    case True
    with ct cb have db: "depthBranch i f1 s1 = (st, f', s2)" by (simp add: cameraTurn_def)
    from c len have len1: "length (clients s1) < 2 ^ 32" by simp
    from c have wf1: "wfInv n s1" and so1: "socketsInv p s1" by simp_all
    note d = depthBranch_meta [OF wf1 so1 len1 db, of log0]
    from c d True show ?thesis by simp
  qed
qed

lemma scanCameras_meta:
  assumes wf: "wfInv n s" and so: "socketsInv p s" and len: "length (clients s) < 2 ^ 32"
    and sc: "scanCameras 0 False s = (st, f', s2)"
  shows "wfInv n s2 \<and> socketsInv p s2 \<and> length (clients s2) \<le> length (clients s)
       \<and> metaFrameIndex s2 = metaFrameIndex s \<and> streamingThread s2 = streamingThread s
       \<and> nextSockId s2 = nextSockId s
       \<and> (countersInv s \<and> clientInv p log0 (metaFrameIndex s) s \<and> st = Completed \<longrightarrow>
            countersInv s2 \<and> clientInv p log0 (metaFrameIndex s) s2)"
proof -
  from scanCameras_nothing_or_one_turn [of 0 s]
  consider "scanCameras 0 False s = (Completed, False, s)"
    | k where "scanCameras 0 False s = cameraTurn k s" by blast
  then show ?thesis
  proof cases
    case 1
    with sc wf so show ?thesis by simp
  next
    case 2
    with sc have "cameraTurn k s = (st, f', s2)" by simp
    from cameraTurn_meta [OF wf so len this] show ?thesis .
  qed
qed

lemma streamingThreadStep_meta:
  assumes wf: "wfInv n s" and so: "socketsInv p s" and len: "length (clients s) < 2 ^ 32"
    and same: "metaFrameIndex (streamingThreadStep s) = metaFrameIndex s"
    and ci: "countersInv s" "clientInv p log0 (metaFrameIndex s) s"
  shows "wfInv n (streamingThreadStep s) \<and> socketsInv p (streamingThreadStep s)
       \<and> length (clients (streamingThreadStep s)) \<le> length (clients s)
       \<and> (streamingThread (streamingThreadStep s) = Running \<longrightarrow>
            countersInv (streamingThreadStep s)
            \<and> clientInv p log0 (metaFrameIndex s) (streamingThreadStep s))"
proof (cases "numMissingDepthFrames s > 0 \<or> numMissingColorFrames s > 0")
  case True
  obtain st f s1 where sc: "scanCameras 0 False s = (st, f, s1)" by (metis prod_cases3)
  note m = scanCameras_meta [OF wf so len sc, of log0]
  show ?thesis
  proof (cases "st = Completed")
    case c: True
    with True sc have "streamingThreadStep s = s1" by (simp add: streamingThreadStep_def)
    with m ci c show ?thesis by simp
  next
    case c: False
    with True sc have s': "streamingThreadStep s = s1\<lparr>streamingThread := Ended st\<rparr>"
      by (cases st) (simp_all add: streamingThreadStep_def)
    with m show ?thesis by simp
  qed
next
  case False
  obtain st s1 where nm: "startNewMetaFrame s = (st, s1)" by (cases "startNewMetaFrame s")
  from startNewMetaFrame_frame [of s] nm obtain cams a b where
    c: "s1 = s\<lparr>cameraStates := cams, metaFrameIndex := metaFrameIndex s + 1,
            numMissingColorFrames := a, numMissingDepthFrames := b\<rparr>" by auto
  have "metaFrameIndex (streamingThreadStep s) = metaFrameIndex s + 1"
    using False nm c by (cases st) (simp_all add: streamingThreadStep_def)
  with same show ?thesis by simp
qed

lemma streamingThreadStep_scan_metaFrameIndex:
  assumes wf: "wfInv n s" and so: "socketsInv p s" and len: "length (clients s) < 2 ^ 32"
    and "numMissingDepthFrames s > 0 \<or> numMissingColorFrames s > 0"
  shows "metaFrameIndex (streamingThreadStep s) = metaFrameIndex s"
proof -
  obtain st f s1 where sc: "scanCameras 0 False s = (st, f, s1)" by (metis prod_cases3)
  note m = scanCameras_meta [OF wf so len sc, of "[]"]
  with assms(4) sc show ?thesis
    by (cases st) (simp_all add: streamingThreadStep_def)
qed

lemma hasSent_callbacks [simp]:
  "hasSentColorFrame (colorStreamingCallback f cam) = hasSentColorFrame cam"
  "hasSentDepthFrame (colorStreamingCallback f cam) = hasSentDepthFrame cam"
  "hasSentColorFrame (depthStreamingCallback f cam) = hasSentColorFrame cam"
  "hasSentDepthFrame (depthStreamingCallback f cam) = hasSentDepthFrame cam"
  by (simp_all add: colorStreamingCallback_def depthStreamingCallback_def storeBuffers_def Let_def)

lemma sentIds_update_same:
  assumes "i < length cams" "length cams \<le> 2 ^ 31"
    "hasSentColorFrame c = hasSentColorFrame (cams ! i)"
    "hasSentDepthFrame c = hasSentDepthFrame (cams ! i)"
  shows "sentIds (cams[i := c]) = sentIds cams"
proof -
  have u: "unat (of_nat i :: u32) = i" using assms(1,2) by (simp add: unat_of_nat)
  have "colorSent (cams[unat (of_nat i :: u32) := c]) = colorSent cams"
    using assms by (intro colorSent_same) (simp_all add: u)
  moreover have "depthSent (cams[unat (of_nat i :: u32) := c]) = depthSent cams"
    using assms by (intro depthSent_same) (simp_all add: u)
  ultimately show ?thesis by (simp add: sentIds_def u)
qed

lemma callback_meta:
  assumes wf: "wfInv n s" and i: "i < length (cameraStates s)"
    and fl: "hasSentColorFrame c = hasSentColorFrame (cameraStates s ! i)"
      "hasSentDepthFrame c = hasSentDepthFrame (cameraStates s ! i)"
  shows "wfInv n (s\<lparr>cameraStates := (cameraStates s)[i := c]\<rparr>)
    \<and> (countersInv s \<longrightarrow> countersInv (s\<lparr>cameraStates := (cameraStates s)[i := c]\<rparr>))
    \<and> (clientInv p log0 m s \<longrightarrow> clientInv p log0 m (s\<lparr>cameraStates := (cameraStates s)[i := c]\<rparr>))"
proof -
  from wf have l31: "length (cameraStates s) \<le> 2 ^ 31" by (simp add: wfInv_def)
  have 1: "length (filter (\<lambda>cam. \<not> hasSentColorFrame cam) ((cameraStates s)[i := c]))
      = length (filter (\<lambda>cam. \<not> hasSentColorFrame cam) (cameraStates s))"
    using i fl(1) by (intro filter_update_same) simp_all
  have 2: "length (filter (\<lambda>cam. \<not> hasSentDepthFrame cam) ((cameraStates s)[i := c]))
      = length (filter (\<lambda>cam. \<not> hasSentDepthFrame cam) (cameraStates s))"
    using i fl(2) by (intro filter_update_same) simp_all
  have 3: "sentIds ((cameraStates s)[i := c]) = sentIds (cameraStates s)"
    using i l31 fl by (rule sentIds_update_same)
  show ?thesis
    using wf by (simp add: wfInv_def countersInv_def clientInv_def 1 2 3)
qed

lemma listeningThreadStep_meta:
  assumes wf: "wfInv n s" and so: "socketsInv p s"
  shows "wfInv n (listeningThreadStep a s) \<and> socketsInv p (listeningThreadStep a s)
    \<and> length (clients (listeningThreadStep a s)) \<le> Suc (length (clients s))
    \<and> metaFrameIndex (listeningThreadStep a s) = metaFrameIndex s
    \<and> streamingThread (listeningThreadStep a s) = streamingThread s
    \<and> (countersInv s \<longrightarrow> countersInv (listeningThreadStep a s))
    \<and> (clientInv p log0 m s \<longrightarrow> clientInv p log0 m (listeningThreadStep a s))"
proof (cases a)
  case (Inl e)
  with wf so show ?thesis
    by (cases e)
      (auto simp: listeningThreadStep_def wfInv_def socketsInv_def countersInv_def clientInv_def
         split: option.splits)
next
  case (Inr q)
  from wf have w: "unat (numCameras s) \<le> length (cameraStates s)" by (simp add: wfInv_def)
  obtain r sock where wr: "writeAll (streamHeader s) (newTCPPipe (nextSockId s) q) = (r, sock)"
    by (cases "writeAll (streamHeader s) (newTCPPipe (nextSockId s) q)")
  show ?thesis
  proof (cases r)
    case Done
    from writeAll_Done [OF wr [unfolded Done]] have id: "sockId sock = nextSockId s"
      by (cases q) (simp add: newTCPPipe_def)
    have s': "listeningThreadStep a s
        = s\<lparr>nextSockId := Suc (nextSockId s), clients := clients s @ [sock]\<rparr>"
      by (simp add: Inr listeningThreadStep_accepted [OF w] wr Done)
    from so have fresh: "nextSockId s \<notin> sockId ` set (clients s)" "p \<noteq> Some (nextSockId s)"
      by (auto simp: socketsInv_def split: option.splits)
    have A: "socketsInv p (listeningThreadStep a s)"
      using so fresh id by (auto simp: s' socketsInv_def less_Suc_eq split: option.splits)
    have B: "clientInv p log0 m s \<longrightarrow> clientInv p log0 m (listeningThreadStep a s)"
      using fresh(2) id by (auto simp: s' clientInv_def)
    from A B wf show ?thesis by (simp add: s' wfInv_def countersInv_def)
  next
    case (Threw e)
    with wf so show ?thesis
      by (cases e)
        (auto simp: Inr listeningThreadStep_accepted [OF w] wr wfInv_def socketsInv_def
          countersInv_def clientInv_def less_Suc_eq split: option.splits)
  next
    case BadIndex
    with wf so show ?thesis
      by (auto simp: Inr listeningThreadStep_accepted [OF w] wr wfInv_def socketsInv_def
          countersInv_def clientInv_def less_Suc_eq split: option.splits)
  qed
qed

lemma step_meta:
  assumes inv: "metaInv n p log0 m s" and len: "length (clients s) < 2 ^ 32"
    and same: "metaFrameIndex (step e s) = m"
  shows "metaInv n p log0 m (step e s) \<and> length (clients (step e s)) \<le> Suc (length (clients s))"
proof -
  from inv have wf: "wfInv n s" and so: "socketsInv p s" and m: "metaFrameIndex s = m"
    and ci: "streamingThread s = Running \<Longrightarrow> countersInv s \<and> clientInv p log0 m s"
    by (simp_all add: metaInv_def)
  show ?thesis
  proof (cases e)
    case (ColorFrame i f)
    show ?thesis
    proof (cases "i < length (cameraStates s) \<and> StartStreaming \<in> set (camera (cameraStates s ! i))")
      case False
      then have "step e s = s" using ColorFrame by auto
      with inv show ?thesis by simp
    next
      case True
      then have i: "i < length (cameraStates s)" by simp
      from callback_meta [OF wf i, of "colorStreamingCallback f (cameraStates s ! i)" p log0 m]
        True so m ci
      show ?thesis by (simp add: ColorFrame metaInv_def socketsInv_def)
    qed
  next
    case (DepthFrame i f)
    show ?thesis
    proof (cases "i < length (cameraStates s) \<and> StartStreaming \<in> set (camera (cameraStates s ! i))")
      case False
      then have "step e s = s" using DepthFrame by auto
      with inv show ?thesis by simp
    next
      case True
      then have i: "i < length (cameraStates s)" by simp
      from callback_meta [OF wf i, of "depthStreamingCallback f (cameraStates s ! i)" p log0 m]
        True so m ci
      show ?thesis by (simp add: DepthFrame metaInv_def socketsInv_def)
    qed
  next
    case (Connection a)
    show ?thesis
    proof (cases "listeningThread s = Running")
      case False
      with Connection inv show ?thesis by simp
    next
      case True
      from listeningThreadStep_meta [OF wf so, of a log0 m] True m ci
      show ?thesis by (simp add: Connection metaInv_def)
    qed
  next
    case (Peer k q)
    have "clientInv p log0 m (s\<lparr>clients := map (setPeer k q) (clients s)\<rparr>)"
      if "clientInv p log0 m s"
      using that by (simp add: clientInv_def)
    with wf so m ci show ?thesis
      by (simp add: Peer metaInv_def wfInv_def socketsInv_def countersInv_def comp_def)
  next
    case Stream
    show ?thesis
    proof (cases "streamingThread s = Running")
      case False
      with Stream inv show ?thesis by simp
    next
      case True
      from same Stream True m have sm: "metaFrameIndex (streamingThreadStep s) = metaFrameIndex s"
        by simp
      from ci [OF True] m have c: "countersInv s" "clientInv p log0 (metaFrameIndex s) s"
        by simp_all
      from streamingThreadStep_meta [OF wf so len sm c] True m sm
      show ?thesis by (simp add: Stream metaInv_def)
    qed
  qed
qed

lemma run_meta:
  assumes "metaInv n p log0 m s0" "length (clients s0) + length evs < 2 ^ 32"
    "duringMetaFrame m evs s0"
  shows "metaInv n p log0 m (run evs s0)
       \<and> length (clients (run evs s0)) \<le> length (clients s0) + length evs"
  using assms(2,3)
proof (induction evs rule: rev_induct)
  case Nil
  with assms(1) show ?case by (simp add: run_def)
next
  case (snoc e evs)
  from snoc.prems(2) have d: "duringMetaFrame m evs s0"
    and same: "metaFrameIndex (step e (run evs s0)) = m"
    by (simp_all add: duringMetaFrame_snoc run_snoc)
  from snoc.prems(1) have len: "length (clients s0) + length evs < 2 ^ 32" by simp
  from snoc.IH [OF len d] have IH: "metaInv n p log0 m (run evs s0)"
    "length (clients (run evs s0)) \<le> length (clients s0) + length evs" by simp_all
  with snoc.prems(1) have "length (clients (run evs s0)) < 2 ^ 32" by simp
  from step_meta [OF IH(1) this same] IH(2) show ?case by (simp add: run_snoc)
qed

lemma sentIds_none:
  assumes "\<forall>cam\<in>set cams. \<not> hasSentColorFrame cam \<and> \<not> hasSentDepthFrame cam"
  shows "sentIds cams = {}"
  using assms by (simp add: sentIds_def colorSent_def depthSent_def)

lemma sentIds_all:
  assumes "\<forall>cam\<in>set cams. hasSentColorFrame cam \<and> hasSentDepthFrame cam"
    "length cams = unat (n :: u32)"
  shows "sentIds cams = {f. \<exists>i<n. f = i * 2 + 0 \<or> f = i * 2 + 1}"
proof -
  have "colorSent cams = {i. i < n}" "depthSent cams = {i. i < n}"
    using assms by (auto simp: colorSent_def depthSent_def word_less_nat_alt)
  then show ?thesis unfolding sentIds_def by blast
qed

lemma metaInv_start:
  assumes "wfInv n s0"
    "\<forall>cam\<in>set (cameraStates s0). \<not> hasSentColorFrame cam \<and> \<not> hasSentDepthFrame cam"
    "numMissingColorFrames s0 = n" "numMissingDepthFrames s0 = n"
    "distinct (map sockId (clients s0))" "\<forall>c\<in>set (clients s0). sockId c < nextSockId s0"
    "c0 \<in> set (clients s0)"
  shows "metaInv n (Some (sockId c0)) (sent c0) (metaFrameIndex s0) s0"
proof -
  have f: "filter (\<lambda>cam. \<not> hasSentColorFrame cam) (cameraStates s0) = cameraStates s0"
    "filter (\<lambda>cam. \<not> hasSentDepthFrame cam) (cameraStates s0) = cameraStates s0"
    using assms(2) by (simp_all add: filter_id_conv)
  have A: "countersInv s0" using assms(1,3,4) by (simp add: countersInv_def wfInv_def f)
  have B: "socketsInv (Some (sockId c0)) s0" using assms(5,6,7) by (simp add: socketsInv_def)
  have "c = c0" if "c \<in> set (clients s0)" "sockId c = sockId c0" for c
    using that assms(5,7) by (meson distinct_map inj_onD)
  then have C: "clientInv (Some (sockId c0)) (sent c0) (metaFrameIndex s0) s0"
    unfolding clientInv_def using sentIds_none [OF assms(2)]
    by (auto intro!: exI [of _ "[]"])
  from assms(1) A B C show ?thesis by (simp add: metaInv_def)
qed

lemma card_below: "card {i :: u32. i < n} = unat n"
proof -
  have "{i :: u32. i < n} = of_nat ` {..<unat n}"
  proof (rule set_eqI, rule iffI)
    fix i :: u32
    assume "i \<in> {i. i < n}"
    then have "unat i < unat n" by (simp add: word_less_nat_alt)
    moreover have "i = of_nat (unat i)" by simp
    ultimately show "i \<in> of_nat ` {..<unat n}" by blast
  next
    fix i :: u32
    assume "i \<in> of_nat ` {..<unat n}"
    then obtain k where k: "k < unat n" "i = of_nat k" by auto
    have "unat n < 2 ^ 32" using unsigned_less [of n, where ?'a = nat] by simp
    with k(1) have "unat (of_nat k :: u32) = k" by (simp add: unat_of_nat)
    with k show "i \<in> {i. i < n}" by (simp add: word_less_nat_alt)
  qed
  moreover have "inj_on (of_nat :: nat \<Rightarrow> u32) {..<unat n}"
  proof (rule inj_onI)
    fix a b :: nat
    assume a: "a \<in> {..<unat n}" and b: "b \<in> {..<unat n}"
      and e: "(of_nat a :: u32) = of_nat b"
    have "unat n < 2 ^ 32" using unsigned_less [of n, where ?'a = nat] by simp
    with a b have u: "unat (of_nat a :: u32) = a" "unat (of_nat b :: u32) = b"
      by (simp_all add: unat_of_nat)
    from e have "unat (of_nat a :: u32) = unat (of_nat b :: u32)" by (rule arg_cong)
    then show "a = b" by (simp only: u)
  qed
  ultimately have "card {i :: u32. i < n} = card {..<unat n}"
    by (simp only: card_image)
  then show ?thesis by (simp only: card_lessThan)
qed

lemma card_frame_ids:
  assumes "unat (n :: u32) \<le> 2 ^ 31"
  shows "card {f. \<exists>i<n. f = i * 2 + 0 \<or> f = i * 2 + 1} = 2 * unat n"
proof -
  let ?A = "(\<lambda>i :: u32. i * 2 + 0) ` {i. i < n}"
  let ?B = "(\<lambda>i :: u32. i * 2 + 1) ` {i. i < n}"
  have small: "unat i < 2 ^ 31" if "i < n" for i
    using that assms by (simp add: word_less_nat_alt)
  have eq: "{f. \<exists>i<n. f = i * 2 + 0 \<or> f = i * 2 + 1} = ?A \<union> ?B" by blast
  have iA: "inj_on (\<lambda>i :: u32. i * 2 + 0) {i. i < n}"
    by (rule inj_onI) (use small double_inj in auto)
  have iB: "inj_on (\<lambda>i :: u32. i * 2 + 1) {i. i < n}"
    by (rule inj_onI) (use small double_inj in auto)
  have "x \<notin> ?B" if "x \<in> ?A" for x
  proof
    assume "x \<in> ?B"
    with that obtain i j :: u32 where "x = i * 2 + 0" "x = j * 2 + 1" by blast
    then have "j * 2 + 1 = i * 2" by simp
    with double_parity [of j i] show False by simp
  qed
  then have dj: "?A \<inter> ?B = {}" by blast
  have "card (?A \<union> ?B) = card ?A + card ?B"
    by (rule card_Un_disjoint) (simp, simp, rule dj)
  also have "\<dots> = unat n + unat n" using iA iB by (simp only: card_image card_below)
  finally show ?thesis by (simp only: eq mult_2)
qed

lemma meta_frame_from_start:
  assumes wf: "length (cameraStates s0) = unat (numCameras s0)" "unat (numCameras s0) \<le> 2 ^ 31"
    and start: "\<forall>cam\<in>set (cameraStates s0). \<not> hasSentColorFrame cam \<and> \<not> hasSentDepthFrame cam"
      "numMissingColorFrames s0 = numCameras s0" "numMissingDepthFrames s0 = numCameras s0"
    and ids: "distinct (map sockId (clients s0))"
      "\<forall>c\<in>set (clients s0). sockId c < nextSockId s0"
    and bound: "length (clients s0) + length evs < 2 ^ 32"
    and during: "duringMetaFrame (metaFrameIndex s0) evs s0"
    and incr: "metaFrameIndex (step Stream (run evs s0)) \<noteq> metaFrameIndex s0"
    and client: "c0 \<in> set (clients s0)" "c \<in> set (clients (run evs s0))" "sockId c = sockId c0"
  shows "\<exists>fs. sent c = sent c0 @ fs \<and> frameRecords fs
           \<and> (\<forall>r\<in>set (records fs). fst r = metaFrameIndex s0)
           \<and> distinct (map snd (records fs))
           \<and> set (map snd (records fs))
               = {f. \<exists>i<numCameras s0. f = i * 2 + 0 \<or> f = i * 2 + 1}
           \<and> length (records fs) = 2 * unat (numCameras s0)
           \<and> metaFrameIndex (step Stream (run evs s0)) = metaFrameIndex s0 + 1"
proof -
  let ?n = "numCameras s0" and ?m = "metaFrameIndex s0" and ?t = "run evs s0"
  from wf have w0: "wfInv ?n s0" by (simp add: wfInv_def)
  from metaInv_start [OF w0 start ids client(1)]
  have "metaInv ?n (Some (sockId c0)) (sent c0) ?m s0" .
  from run_meta [OF this bound during]
  have inv: "metaInv ?n (Some (sockId c0)) (sent c0) ?m ?t"
    and len: "length (clients ?t) \<le> length (clients s0) + length evs" by simp_all
  from inv have wt: "wfInv ?n ?t" and so: "socketsInv (Some (sockId c0)) ?t"
    and mt: "metaFrameIndex ?t = ?m"
    by (simp_all add: metaInv_def)
  from len bound have lt: "length (clients ?t) < 2 ^ 32" by simp
  have running: "streamingThread ?t = Running"
  proof (rule ccontr)
    assume "streamingThread ?t \<noteq> Running"
    then have "step Stream ?t = ?t" by simp
    with incr mt show False by simp
  qed
  have zero: "numMissingDepthFrames ?t = 0 \<and> numMissingColorFrames ?t = 0"
  proof (rule ccontr)
    assume "\<not> ?thesis"
    then have "numMissingDepthFrames ?t > 0 \<or> numMissingColorFrames ?t > 0"
      by (auto simp: word_greater_zero_iff)
    from streamingThreadStep_scan_metaFrameIndex [OF wt so lt this] running incr mt
    show False by simp
  qed
  obtain st s1 where sn: "startNewMetaFrame ?t = (st, s1)" by (cases "startNewMetaFrame ?t")
  from startNewMetaFrame_frame [of ?t] sn have "metaFrameIndex s1 = metaFrameIndex ?t + 1"
    by auto
  with running zero sn mt have next_index: "metaFrameIndex (step Stream ?t) = ?m + 1"
    by (cases st) (simp_all add: streamingThreadStep_def)
  from inv running have ci: "countersInv ?t"
    and cl: "clientInv (Some (sockId c0)) (sent c0) ?m ?t"
    by (simp_all add: metaInv_def)
  from ci zero have "filter (\<lambda>cam. \<not> hasSentColorFrame cam) (cameraStates ?t) = []"
    "filter (\<lambda>cam. \<not> hasSentDepthFrame cam) (cameraStates ?t) = []"
    by (simp_all add: countersInv_def)
  then have all: "\<forall>cam\<in>set (cameraStates ?t). hasSentColorFrame cam \<and> hasSentDepthFrame cam"
    by (simp add: filter_empty_conv)
  from wt have "length (cameraStates ?t) = unat ?n" by (simp add: wfInv_def)
  from sentIds_all [OF all this]
  have sall: "sentIds (cameraStates ?t) = {f. \<exists>i<?n. f = i * 2 + 0 \<or> f = i * 2 + 1}" .
  from cl client(2,3) have "\<exists>fs. sent c = sent c0 @ fs \<and> frameRecords fs
      \<and> (\<forall>r\<in>set (records fs). fst r = ?m) \<and> distinct (map snd (records fs))
      \<and> set (map snd (records fs)) = sentIds (cameraStates ?t)"
    by (simp add: clientInv_def)
  then obtain fs where fs: "sent c = sent c0 @ fs" "frameRecords fs"
    "\<forall>r\<in>set (records fs). fst r = ?m" "distinct (map snd (records fs))"
    "set (map snd (records fs)) = sentIds (cameraStates ?t)"
    by blast
  from fs(4) have "length (records fs) = card (set (map snd (records fs)))"
    by (metis distinct_card length_map)
  also have "\<dots> = 2 * unat ?n" by (simp only: fs(5) sall card_frame_ids [OF wf(2)])
  finally have "length (records fs) = 2 * unat ?n" .
  with fs sall next_index show ?thesis by (intro exI [of _ fs]) simp
qed

text \<open>
  The start of a meta-frame (lines 343-351): with as many camera states as \<^verbatim>\<open>numCameras\<close>,
  the loop clears both flags of every camera, and both counters become \<^verbatim>\<open>numCameras\<close>.
\<close>

lemma resetFlags_clears:
  assumes "length (cameraStates s) = unat (numCameras s)" "i \<le> numCameras s"
  shows "resetFlags i s =
    (Completed,
     s\<lparr>cameraStates := take (unat i) (cameraStates s)
          @ map (\<lambda>cam. cam\<lparr>hasSentColorFrame := False, hasSentDepthFrame := False\<rparr>)
              (drop (unat i) (cameraStates s))\<rparr>)"
  using assms
proof (induction "unat (numCameras s) - unat i" arbitrary: i s rule: less_induct)
  case less
  let ?f = "\<lambda>cam. cam\<lparr>hasSentColorFrame := False, hasSentDepthFrame := False\<rparr>"
  let ?cams = "cameraStates s"
  show ?case
  proof (cases "i < numCameras s")
    case False
    with less.prems(2) have "i = numCameras s" by simp
    with less.prems(1) show ?thesis by (subst resetFlags.simps) simp
  next
    case True
    then have ui: "unat i < unat (numCameras s)" by (simp add: word_less_nat_alt)
    with less.prems(1) have inb: "unat i < length ?cams" by simp
    from True have s1: "unat (i + 1) = Suc (unat i)" by unat_arith
    from True have le: "i + 1 \<le> numCameras s" by (rule inc_le)
    let ?s1 = "s\<lparr>cameraStates := ?cams[unat i := ?f (?cams ! unat i)]\<rparr>"
    have "resetFlags (i + 1) ?s1 =
      (Completed,
       ?s1\<lparr>cameraStates := take (unat (i + 1)) (cameraStates ?s1)
            @ map ?f (drop (unat (i + 1)) (cameraStates ?s1))\<rparr>)"
      using less.prems(1) le ui s1 by (intro less.hyps) simp_all
    moreover have "take (Suc (unat i)) (?cams[unat i := ?f (?cams ! unat i)])
        = take (unat i) ?cams @ [?f (?cams ! unat i)]"
      using inb by (simp add: take_Suc_conv_app_nth)
    moreover have "drop (unat i) ?cams = ?cams ! unat i # drop (Suc (unat i)) ?cams"
      using inb by (simp add: Cons_nth_drop_Suc)
    ultimately show ?thesis
      using True inb by (subst resetFlags.simps) (simp add: s1)
  qed
qed

lemma startNewMetaFrame_reset:
  assumes "wfInv n s"
  shows "startNewMetaFrame s =
    (Completed,
     s\<lparr>cameraStates :=
          map (\<lambda>cam. cam\<lparr>hasSentColorFrame := False, hasSentDepthFrame := False\<rparr>)
            (cameraStates s),
        metaFrameIndex := metaFrameIndex s + 1,
        numMissingColorFrames := n, numMissingDepthFrames := n\<rparr>)"
proof -
  let ?s1 = "s\<lparr>metaFrameIndex := metaFrameIndex s + 1\<rparr>"
  from assms have "length (cameraStates ?s1) = unat (numCameras ?s1)" "0 \<le> numCameras ?s1"
    by (simp_all add: wfInv_def)
  from resetFlags_clears [OF this] assms show ?thesis
    by (simp add: startNewMetaFrame_def wfInv_def)
qed

text \<open>
  A step of the server that changes \<^verbatim>\<open>metaFrameIndex\<close> is the start of a meta-frame by the
  running streaming thread, with both counters at zero.
\<close>

lemma step_increment:
  assumes wf: "wfInv n s" and so: "socketsInv p s" and len: "length (clients s) < 2 ^ 32"
    and ch: "metaFrameIndex (step e s) \<noteq> metaFrameIndex s"
  shows "e = Stream \<and> streamingThread s = Running
    \<and> numMissingColorFrames s = 0 \<and> numMissingDepthFrames s = 0
    \<and> step e s =
        s\<lparr>cameraStates :=
             map (\<lambda>cam. cam\<lparr>hasSentColorFrame := False, hasSentDepthFrame := False\<rparr>)
               (cameraStates s),
           metaFrameIndex := metaFrameIndex s + 1,
           numMissingColorFrames := n, numMissingDepthFrames := n\<rparr>"
proof (cases e)
  case (ColorFrame i f)
  with ch show ?thesis by (simp split: if_splits)
next
  case (DepthFrame i f)
  with ch show ?thesis by (simp split: if_splits)
next
  case (Connection a)
  with ch listeningThreadStep_meta [OF wf so, of a] show ?thesis by (simp split: if_splits)
next
  case (Peer k q)
  with ch show ?thesis by simp
next
  case Stream
  with ch have running: "streamingThread s = Running" by (simp split: if_splits)
  have zero: "numMissingDepthFrames s = 0 \<and> numMissingColorFrames s = 0"
  proof (rule ccontr)
    assume "\<not> ?thesis"
    then have "numMissingDepthFrames s > 0 \<or> numMissingColorFrames s > 0"
      by (auto simp: word_greater_zero_iff)
    from streamingThreadStep_scan_metaFrameIndex [OF wf so len this] running ch Stream
    show False by simp
  qed
  with running Stream startNewMetaFrame_reset [OF wf] show ?thesis
    by (simp add: streamingThreadStep_def)
qed

text \<open>What holds within a meta-frame holds in every state the server reaches.\<close>

lemma step_global:
  assumes inv: "metaInv n None [] (metaFrameIndex s) s" and len: "length (clients s) < 2 ^ 32"
  shows "metaInv n None [] (metaFrameIndex (step e s)) (step e s)
       \<and> length (clients (step e s)) \<le> Suc (length (clients s))"
proof (cases "metaFrameIndex (step e s) = metaFrameIndex s")
  case True
  from step_meta [OF inv len True] True show ?thesis by simp
next
  case False
  from inv have wf: "wfInv n s" and so: "socketsInv None s" by (simp_all add: metaInv_def)
  note st = step_increment [OF wf so len False]
  let ?f = "\<lambda>cam. cam\<lparr>hasSentColorFrame := False, hasSentDepthFrame := False\<rparr>"
  have f: "filter (\<lambda>cam. \<not> hasSentColorFrame cam) (map ?f (cameraStates s)) = map ?f (cameraStates s)"
    "filter (\<lambda>cam. \<not> hasSentDepthFrame cam) (map ?f (cameraStates s)) = map ?f (cameraStates s)"
    by (simp_all add: filter_id_conv)
  from st have eq: "step e s =
        s\<lparr>cameraStates := map ?f (cameraStates s),
           metaFrameIndex := metaFrameIndex s + 1,
           numMissingColorFrames := n, numMissingDepthFrames := n\<rparr>" by blast
  have "wfInv n (step e s)" using wf by (simp add: eq wfInv_def)
  moreover have "socketsInv None (step e s)" using so by (simp add: eq socketsInv_def)
  moreover have "countersInv (step e s)"
    using wf unfolding eq countersInv_def by (simp add: f wfInv_def)
  moreover have "clientInv None [] (metaFrameIndex (step e s)) (step e s)"
    by (simp add: clientInv_def)
  moreover have "length (clients (step e s)) \<le> Suc (length (clients s))" by (simp add: eq)
  ultimately show ?thesis by (simp add: metaInv_def)
qed

lemma run_global:
  assumes "metaInv n None [] (metaFrameIndex s0) s0" "length (clients s0) + length evs < 2 ^ 32"
  shows "metaInv n None [] (metaFrameIndex (run evs s0)) (run evs s0)
       \<and> length (clients (run evs s0)) \<le> length (clients s0) + length evs"
  using assms(2)
proof (induction evs rule: rev_induct)
  case Nil
  with assms(1) show ?case by (simp add: run_def)
next
  case (snoc e evs)
  then have IH: "metaInv n None [] (metaFrameIndex (run evs s0)) (run evs s0)"
    "length (clients (run evs s0)) \<le> length (clients s0) + length evs" by simp_all
  with snoc.prems have "length (clients (run evs s0)) < 2 ^ 32" by simp
  from step_global [OF IH(1) this, of e] IH(2) show ?case by (simp add: run_snoc)
qed


text \<open>The state the constructor leaves is the start of the first meta-frame.\<close>

lemma createCameras_keys:
  assumes "createCameras secs kinects acc = Inr r"
  shows "\<forall>sec\<in>set secs. serialNumber sec \<noteq> None"
proof (rule ccontr)
  assume "\<not> ?thesis"
  then have "\<exists>sec\<in>set secs. serialNumber sec = None" by simp
  from createCameras_missing_key [OF this, of kinects acc] assms show False by simp
qed

lemma cameraFor_flags:
  "\<not> hasSentColorFrame (startStreaming (cameraFor kinects sec))"
  "\<not> hasSentDepthFrame (startStreaming (cameraFor kinects sec))"
  by (simp_all add: startStreaming_def cameraFor_def configureCamera_def newCameraState_def
      storeBuffers_def Let_def)

lemma newKinectServer_start:
  assumes "newKinectServer usbDevices cameraSections = Inr s"
    and "length cameraSections \<le> 2 ^ 31"
  shows "wfInv (numCameras s) s" "clients s = []"
    "\<forall>cam\<in>set (cameraStates s). \<not> hasSentColorFrame cam \<and> \<not> hasSentDepthFrame cam"
    "numMissingColorFrames s = numCameras s" "numMissingDepthFrames s = numCameras s"
    "metaInv (numCameras s) None [] (metaFrameIndex s) s"
proof -
  let ?k = "filter isKinect usbDevices"
  let ?found = "filter (present ?k) cameraSections"
  let ?n = "of_nat (length ?found) :: u32"
  obtain r where r: "createCameras cameraSections ?k (0, [], []) = Inr r"
    using assms(1) by (auto simp: newKinectServer_def split: sum.splits)
  have len31: "length ?found \<le> 2 ^ 31"
    using assms(2) length_filter_le [of "present ?k" cameraSections] by linarith
  then have len: "length ?found < 2 ^ 32" by simp
  have cc: "createCameras cameraSections ?k (0, [], []) =
      Inr (?n, map (cameraFor ?k) ?found,
           map missingMessage (filter (\<lambda>sec. \<not> present ?k sec) cameraSections))"
    using createCameras_result [OF createCameras_keys [OF r], of ?k 0 "[]" "[]"] by simp
  have sa: "startAll 0 ?n (map (cameraFor ?k) ?found)
      = map startStreaming (map (cameraFor ?k) ?found)"
    using len by (subst startAll_map) (simp_all add: unat_of_nat)
  have u: "unat ?n = length ?found" using len by (simp add: unat_of_nat)
  from assms(1) have s: "s = \<lparr>numCameras = ?n,
      cameraStates = map startStreaming (map (cameraFor ?k) ?found),
      clients = [], deletedSockets = [], metaFrameIndex = 0,
      numMissingColorFrames = ?n, numMissingDepthFrames = ?n,
      listeningThread = Running,
      streamingThread = (if ?n > 0 then Running else NotStarted),
      nextSockId = 0,
      errLog = map missingMessage (filter (\<lambda>sec. \<not> present ?k sec) cameraSections)\<rparr>"
    unfolding newKinectServer_def cc by (simp add: sa)
  show wf: "wfInv (numCameras s) s" using len31 by (simp add: s wfInv_def u)
  show "clients s = []" by (simp add: s)
  show fl: "\<forall>cam\<in>set (cameraStates s). \<not> hasSentColorFrame cam \<and> \<not> hasSentDepthFrame cam"
    by (simp add: s cameraFor_flags)
  show c1: "numMissingColorFrames s = numCameras s" by (simp add: s)
  show c2: "numMissingDepthFrames s = numCameras s" by (simp add: s)
  have f: "filter (\<lambda>cam. \<not> hasSentColorFrame cam) (cameraStates s) = cameraStates s"
    "filter (\<lambda>cam. \<not> hasSentDepthFrame cam) (cameraStates s) = cameraStates s"
    using fl by (simp_all add: filter_id_conv)
  have "countersInv s" using wf c1 c2 by (simp add: countersInv_def wfInv_def f)
  moreover have "socketsInv None s" by (simp add: s socketsInv_def)
  moreover have "clientInv None [] (metaFrameIndex s) s" by (simp add: clientInv_def)
  ultimately show "metaInv (numCameras s) None [] (metaFrameIndex s) s"
    using wf by (simp add: metaInv_def)
qed

lemma run_append: "run (xs @ ys) s = run ys (run xs s)"
  by (simp add: run_def)

text \<open>
  C2. Take the server as the constructor leaves it, with at most \<open>2^31\<close> configured cameras,
  and any run of fewer than \<open>2^32\<close> events. A meta-frame starts with the constructor or with
  a step that changes \<^verbatim>\<open>metaFrameIndex\<close>; call the state then \<open>s0\<close>. In \<open>s0\<close> no flag is set and
  both counters are \<^verbatim>\<open>numCameras\<close>. Let events \<open>evs\<close> happen within the meta-frame, up to a
  state \<open>t\<close> whose next streaming step changes \<^verbatim>\<open>metaFrameIndex\<close>. Then a client that was in the
  list in \<open>s0\<close> and still is in \<open>t\<close> has been sent, since \<open>s0\<close>, complete frame records only,
  all of them tagged with this meta-frame's index, with pairwise different frame
  identifiers that are exactly \<open>i*2+0\<close> and \<open>i*2+1\<close> for the cameras \<open>i < numCameras\<close>: every color
  and every depth frame once, \<open>2 * numCameras\<close> records in all, and all of them written before
  that step. The step adds one to \<^verbatim>\<open>metaFrameIndex\<close>, clears every flag and sets both counters
  to \<^verbatim>\<open>numCameras\<close> again, and leaves the clients as they are: the next meta-frame starts as
  this one did.
\<close>

theorem meta_frame_delivers_each_frame_once:
  assumes init: "newKinectServer usbDevices cameraSections = Inr sI"
    and cams: "length cameraSections \<le> 2 ^ 31"
    and bound: "length pre + length evs < 2 ^ 32"
    and start: "startsMetaFrame pre sI" and s0: "s0 = run pre sI"
    and during: "duringMetaFrame (metaFrameIndex s0) evs s0" and t: "t = run evs s0"
    and incr: "metaFrameIndex (step Stream t) \<noteq> metaFrameIndex s0"
    and client: "c0 \<in> set (clients s0)" "c \<in> set (clients t)" "sockId c = sockId c0"
  shows "(\<forall>cam\<in>set (cameraStates s0). \<not> hasSentColorFrame cam \<and> \<not> hasSentDepthFrame cam)
       \<and> numMissingColorFrames s0 = numCameras sI
       \<and> numMissingDepthFrames s0 = numCameras sI
       \<and> (\<exists>fs. sent c = sent c0 @ fs \<and> frameRecords fs
            \<and> (\<forall>r\<in>set (records fs). fst r = metaFrameIndex s0)
            \<and> distinct (map snd (records fs))
            \<and> set (map snd (records fs))
                = {f. \<exists>i<numCameras sI. f = i * 2 + 0 \<or> f = i * 2 + 1}
            \<and> length (records fs) = 2 * unat (numCameras sI))
       \<and> metaFrameIndex (step Stream t) = metaFrameIndex s0 + 1
       \<and> (\<forall>cam\<in>set (cameraStates (step Stream t)).
             \<not> hasSentColorFrame cam \<and> \<not> hasSentDepthFrame cam)
       \<and> numMissingColorFrames (step Stream t) = numCameras sI
       \<and> numMissingDepthFrames (step Stream t) = numCameras sI
       \<and> clients (step Stream t) = clients t"
proof -
  let ?n = "numCameras sI"
  let ?f = "\<lambda>cam. cam\<lparr>hasSentColorFrame := False, hasSentDepthFrame := False\<rparr>"
  note c = newKinectServer_start [OF init cams]
  have len: "length (clients sI) + length xs < 2 ^ 32" if "length xs \<le> length pre + length evs"
    for xs :: "event list" using that bound c(2) by simp
  have g: "metaInv ?n None [] (metaFrameIndex (run xs sI)) (run xs sI)
      \<and> length (clients (run xs sI)) \<le> length xs"
    if "length xs \<le> length pre + length evs" for xs
    using run_global [OF c(6) len [OF that]] c(2) by simp
  have wfx: "wfInv ?n (run xs sI)" "socketsInv None (run xs sI)" "length (clients (run xs sI)) < 2 ^ 32"
    if "length xs \<le> length pre + length evs" for xs
    using g [OF that] that bound by (simp_all add: metaInv_def)
  have A: "(\<forall>cam\<in>set (cameraStates s0). \<not> hasSentColorFrame cam \<and> \<not> hasSentDepthFrame cam)
       \<and> numMissingColorFrames s0 = ?n \<and> numMissingDepthFrames s0 = ?n"
  proof (cases "pre = []")
    case True
    with c(3,4,5) show ?thesis by (simp add: s0 run_def)
  next
    case False
    with start have l: "last pre = Stream"
      and ch: "metaFrameIndex (run pre sI) \<noteq> metaFrameIndex (run (butlast pre) sI)"
      by (simp_all add: startsMetaFrame_def)
    from False l have p: "pre = butlast pre @ [Stream]" by (metis append_butlast_last_id)
    have sp: "run pre sI = step Stream (run (butlast pre) sI)"
      by (subst p) (simp add: run_snoc)
    have lb: "length (butlast pre) \<le> length pre + length evs" by simp
    from ch have "metaFrameIndex (step Stream (run (butlast pre) sI))
        \<noteq> metaFrameIndex (run (butlast pre) sI)" by (simp add: sp)
    from step_increment [OF wfx [OF lb] this]
    have "step Stream (run (butlast pre) sI) =
        (run (butlast pre) sI)\<lparr>cameraStates := map ?f (cameraStates (run (butlast pre) sI)),
           metaFrameIndex := metaFrameIndex (run (butlast pre) sI) + 1,
           numMissingColorFrames := ?n, numMissingDepthFrames := ?n\<rparr>" by blast
    then show ?thesis by (simp add: s0 sp)
  qed
  have lp: "length pre \<le> length pre + length evs" by simp
  from wfx(1) [OF lp] have wf0: "length (cameraStates s0) = unat (numCameras s0)"
    "unat (numCameras s0) \<le> 2 ^ 31" and n0: "numCameras s0 = ?n"
    by (simp_all add: s0 wfInv_def)
  from wfx(2) [OF lp] have ids: "distinct (map sockId (clients s0))"
    "\<forall>c\<in>set (clients s0). sockId c < nextSockId s0"
    by (simp_all add: s0 socketsInv_def)
  from g [OF lp] bound have b0: "length (clients s0) + length evs < 2 ^ 32" by (simp add: s0)
  from A n0 have st: "\<forall>cam\<in>set (cameraStates s0). \<not> hasSentColorFrame cam \<and> \<not> hasSentDepthFrame cam"
    "numMissingColorFrames s0 = numCameras s0" "numMissingDepthFrames s0 = numCameras s0"
    by simp_all
  from meta_frame_from_start
    [OF wf0 st ids b0 during incr [unfolded t] client(1) client(2) [unfolded t] client(3)]
  have B: "(\<exists>fs. sent c = sent c0 @ fs \<and> frameRecords fs
            \<and> (\<forall>r\<in>set (records fs). fst r = metaFrameIndex s0)
            \<and> distinct (map snd (records fs))
            \<and> set (map snd (records fs))
                = {f. \<exists>i<?n. f = i * 2 + 0 \<or> f = i * 2 + 1}
            \<and> length (records fs) = 2 * unat ?n)"
    unfolding n0 by blast
  have tt: "t = run (pre @ evs) sI" by (simp add: t s0 run_append)
  have le: "length (pre @ evs) \<le> length pre + length evs" by simp
  from during have mt: "metaFrameIndex t = metaFrameIndex s0"
    by (cases evs rule: rev_cases) (simp_all add: t run_def duringMetaFrame_snoc)
  from incr mt have "metaFrameIndex (step Stream t) \<noteq> metaFrameIndex t" by simp
  from step_increment [OF wfx [OF le, folded tt] this]
  have "step Stream t =
        t\<lparr>cameraStates := map ?f (cameraStates t),
           metaFrameIndex := metaFrameIndex t + 1,
           numMissingColorFrames := ?n, numMissingDepthFrames := ?n\<rparr>" by blast
  then have C: "metaFrameIndex (step Stream t) = metaFrameIndex s0 + 1
       \<and> (\<forall>cam\<in>set (cameraStates (step Stream t)).
             \<not> hasSentColorFrame cam \<and> \<not> hasSentDepthFrame cam)
       \<and> numMissingColorFrames (step Stream t) = ?n
       \<and> numMissingDepthFrames (step Stream t) = ?n
       \<and> clients (step Stream t) = clients t"
    by (simp add: mt)
  from A B C show ?thesis by (intro conjI) blast+
qed


text \<open>
  An instance: the second meta-frame of a run of the server with two cameras and one
  client. The client is sent the four frames of the meta-frame, and the next streaming step
  starts the third meta-frame.
\<close>

theorem meta_frame_delivers_each_frame_once_witness:
  "newKinectServer [device0, device1] [plainSection ''A'', plainSection ''B'']
     = Inr twoCameraServer
   \<and> metaFrameIndex (run firstMetaFrame twoCameraServer) = 1
   \<and> (\<exists>fs. sent (hd (clients (run secondMetaFrame (run firstMetaFrame twoCameraServer))))
            = sent (hd (clients (run firstMetaFrame twoCameraServer))) @ fs
          \<and> frameRecords fs \<and> distinct (map snd (records fs))
          \<and> length (records fs) = 2 * unat (numCameras twoCameraServer))
   \<and> records (drop (length (sent (hd (clients (run firstMetaFrame twoCameraServer)))))
        (sent (hd (clients (run secondMetaFrame (run firstMetaFrame twoCameraServer))))))
       = [(1, 2), (1, 0), (1, 1), (1, 3)]
   \<and> metaFrameIndex (step Stream (run secondMetaFrame (run firstMetaFrame twoCameraServer)))
       = metaFrameIndex (run firstMetaFrame twoCameraServer) + 1
   \<and> numMissingColorFrames
        (step Stream (run secondMetaFrame (run firstMetaFrame twoCameraServer)))
       = numCameras twoCameraServer
   \<and> numMissingDepthFrames
        (step Stream (run secondMetaFrame (run firstMetaFrame twoCameraServer)))
       = numCameras twoCameraServer"
proof -
  let ?s0 = "run firstMetaFrame twoCameraServer"
  let ?t = "run secondMetaFrame ?s0"
  have init: "newKinectServer [device0, device1] [plainSection ''A'', plainSection ''B'']
      = Inr twoCameraServer" by code_simp
  have cams: "length [plainSection ''A'', plainSection ''B''] \<le> 2 ^ 31" by simp
  have bound: "length firstMetaFrame + length secondMetaFrame < 2 ^ 32"
    by (simp add: firstMetaFrame_def secondMetaFrame_def)
  have start: "startsMetaFrame firstMetaFrame twoCameraServer" by code_simp
  have during: "duringMetaFrame (metaFrameIndex ?s0) secondMetaFrame ?s0" by code_simp
  have incr: "metaFrameIndex (step Stream ?t) \<noteq> metaFrameIndex ?s0" by code_simp
  have c0: "hd (clients ?s0) \<in> set (clients ?s0)" by code_simp
  have c: "hd (clients ?t) \<in> set (clients ?t)" by code_simp
  have same: "sockId (hd (clients ?t)) = sockId (hd (clients ?s0))" by code_simp
  have m: "metaFrameIndex ?s0 = 1" by code_simp
  have r: "records (drop (length (sent (hd (clients ?s0)))) (sent (hd (clients ?t))))
       = [(1, 2), (1, 0), (1, 1), (1, 3)]" by code_simp
  note inst = meta_frame_delivers_each_frame_once
    [OF init cams bound start refl during refl incr c0 c same]
  from inst have A: "\<exists>fs. sent (hd (clients ?t)) = sent (hd (clients ?s0)) @ fs
          \<and> frameRecords fs \<and> distinct (map snd (records fs))
          \<and> length (records fs) = 2 * unat (numCameras twoCameraServer)"
    by blast
  from inst have B: "metaFrameIndex (step Stream ?t) = metaFrameIndex ?s0 + 1"
    "numMissingColorFrames (step Stream ?t) = numCameras twoCameraServer"
    "numMissingDepthFrames (step Stream ?t) = numCameras twoCameraServer"
    by blast+
  from init m A r B show ?thesis by (intro conjI)
qed

end
